theory Spec2Isabelle
  imports Main "HOL-Library.Sublist"
begin

section \<open>Python values\<close>

text \<open>
  A Python \<open>str\<close> is a sequence of Unicode code points, so it is modelled as a list of
  natural numbers. \<open>u\<close> turns an ASCII literal of the source into that representation.
  The values that occur in metadata records are \<open>None\<close>, strings and integers
  (\<open>stars\<close>, \<open>forks\<close>); Python's \<open>==\<close> and \<open>!=\<close> on them are structural.
\<close>

type_synonym pystr = "nat list"

definition u :: "string \<Rightarrow> pystr" where
  "u s = map of_char s"

datatype pyval = PNone | PStr pystr | PInt int

text \<open>
  A record and an update entry are Python dicts with string keys. They are association
  lists in insertion order (the order \<open>json.dump\<close> and \<open>data[0].keys()\<close> see); a key
  is looked up with \<open>map_of\<close>.
\<close>

type_synonym pydict = "(pystr \<times> pyval) list"

datatype error = KeyError pystr | ValueError

definition and_then :: "error + 'a \<Rightarrow> ('a \<Rightarrow> error + 'b) \<Rightarrow> error + 'b" where
  "and_then m f = (case m of Inl e \<Rightarrow> Inl e | Inr x \<Rightarrow> f x)"

text \<open>\<open>d[k]\<close>: raises \<open>KeyError\<close> when the key is missing.\<close>

definition getitem :: "pydict \<Rightarrow> pystr \<Rightarrow> error + pyval" where
  "getitem d k = (case map_of d k of None \<Rightarrow> Inl (KeyError k) | Some v \<Rightarrow> Inr v)"

text \<open>\<open>d.get(k)\<close>: \<open>None\<close> when the key is missing.\<close>

definition get :: "pydict \<Rightarrow> pystr \<Rightarrow> pyval" where
  "get d k = (case map_of d k of None \<Rightarrow> PNone | Some v \<Rightarrow> v)"

text \<open>Truth value of a Python object, and \<open>a or b\<close>: \<open>a\<close> when it is truthy, else \<open>b\<close>.\<close>

fun truthy :: "pyval \<Rightarrow> bool" where
  "truthy PNone = False"
| "truthy (PStr s) = (s \<noteq> [])"
| "truthy (PInt i) = (i \<noteq> 0)"

definition py_or :: "pyval \<Rightarrow> pyval \<Rightarrow> pyval" where
  "py_or a b = (if truthy a then a else b)"

section \<open>The lookup dictionaries of \<open>compare_metadata\<close>\<close>

text \<open>
  \<open>old_dict\<close> and \<open>new_dict\<close> are keyed by the tuple \<open>(item["source"], item["name"])\<close>.
  A Python dict iterates in insertion order, and storing under a key that is already
  present replaces the value and keeps the key's position.
\<close>

type_synonym key = "pyval \<times> pyval"
type_synonym lookup = "(key \<times> pydict) list"

fun setitem :: "('k \<times> 'v) list \<Rightarrow> 'k \<Rightarrow> 'v \<Rightarrow> ('k \<times> 'v) list" where
  "setitem [] k v = [(k, v)]"
| "setitem ((k', v') # d) k v =
     (if k' = k then (k', v) # d else (k', v') # setitem d k v)"

text \<open>
  The comprehension \<open>{(item["source"], item["name"]): item for item in data}\<close>, started
  from the dict built so far.
\<close>

fun build_lookup :: "pydict list \<Rightarrow> lookup \<Rightarrow> error + lookup" where
  "build_lookup [] d = Inr d"
| "build_lookup (item # rest) d =
     and_then (getitem item (u ''source'')) (\<lambda>s.
     and_then (getitem item (u ''name'')) (\<lambda>n.
     build_lookup rest (setitem d (s, n) item)))"

section \<open>The update entries\<close>

text \<open>
  The four \<open>change_type\<close> literals of the source, as code points:
  U+65B0 U+589E (added), U+7248 U+672C U+66F4 U+65B0 (version update),
  U+4ED3 U+5E93 U+66F4 U+65B0 (repository update), U+79FB U+9664 (removed).
\<close>

definition ct_added :: pystr where
  "ct_added = [26032, 22686]"

definition ct_version_update :: pystr where
  "ct_version_update = [29256, 26412, 26356, 26032]"

definition ct_repo_update :: pystr where
  "ct_repo_update = [20179, 24211, 26356, 26032]"

definition ct_removed :: pystr where
  "ct_removed = [31227, 38500]"

text \<open>The entry appended for a key of \<open>new_dict\<close> that is not in \<open>old_dict\<close>.\<close>

definition added_entry :: "pydict \<Rightarrow> error + pydict" where
  "added_entry new_item =
     and_then (getitem new_item (u ''source'')) (\<lambda>s.
     and_then (getitem new_item (u ''name'')) (\<lambda>n.
     and_then (getitem new_item (u ''checked_at'')) (\<lambda>t.
     Inr [(u ''source'', s),
          (u ''name'', n),
          (u ''change_type'', PStr ct_added),
          (u ''old_value'', PNone),
          (u ''new_value'',
             py_or (get new_item (u ''version'')) (get new_item (u ''last_updated''))),
          (u ''check_time'', t)])))"

text \<open>
  The test \<open>new_item["source"] == src and old_item[field] != new_item[field]\<close>;
  \<open>and\<close> evaluates its right operand only when the left one is true.
\<close>

definition field_differs :: "pydict \<Rightarrow> pydict \<Rightarrow> pystr \<Rightarrow> pystr \<Rightarrow> error + bool" where
  "field_differs old_item new_item src field =
     and_then (getitem new_item (u ''source'')) (\<lambda>s.
     if s = PStr src then
       and_then (getitem old_item field) (\<lambda>ov.
       and_then (getitem new_item field) (\<lambda>nv.
       Inr (ov \<noteq> nv)))
     else Inr False)"

text \<open>The entry appended by either branch of the \<open>if\<close>/\<open>elif\<close> for a key in both dicts.\<close>

definition updated_entry :: "pydict \<Rightarrow> pydict \<Rightarrow> pystr \<Rightarrow> pystr \<Rightarrow> pystr \<Rightarrow> error + pydict" where
  "updated_entry old_item new_item src field change =
     and_then (getitem new_item (u ''name'')) (\<lambda>n.
     and_then (getitem old_item field) (\<lambda>ov.
     and_then (getitem new_item field) (\<lambda>nv.
     and_then (getitem new_item (u ''checked_at'')) (\<lambda>t.
     Inr [(u ''source'', PStr src),
          (u ''name'', n),
          (u ''change_type'', PStr change),
          (u ''old_value'', ov),
          (u ''new_value'', nv),
          (u ''check_time'', t)]))))"

text \<open>The body of the \<open>else\<close> branch: at most one entry for a key present in both dicts.\<close>

definition changed_entry :: "pydict \<Rightarrow> pydict \<Rightarrow> error + pydict option" where
  "changed_entry old_item new_item =
     and_then (field_differs old_item new_item (u ''pypi'') (u ''version'')) (\<lambda>pypi_changed.
     if pypi_changed then
       and_then (updated_entry old_item new_item (u ''pypi'') (u ''version'') ct_version_update)
         (\<lambda>e. Inr (Some e))
     else
       and_then (field_differs old_item new_item (u ''github'') (u ''last_updated''))
         (\<lambda>github_changed.
       if github_changed then
         and_then
           (updated_entry old_item new_item (u ''github'') (u ''last_updated'') ct_repo_update)
           (\<lambda>e. Inr (Some e))
       else Inr None))"

text \<open>
  The entry appended for a key of \<open>old_dict\<close> that is not in \<open>new_dict\<close>. Its
  \<open>check_time\<close> is \<open>datetime.now().isoformat()\<close>, read when the entry is built.
\<close>

definition removed_entry :: "pydict \<Rightarrow> pystr \<Rightarrow> error + pydict" where
  "removed_entry old_item now_iso =
     and_then (getitem old_item (u ''source'')) (\<lambda>s.
     and_then (getitem old_item (u ''name'')) (\<lambda>n.
     Inr [(u ''source'', s),
          (u ''name'', n),
          (u ''change_type'', PStr ct_removed),
          (u ''old_value'',
             py_or (get old_item (u ''version'')) (get old_item (u ''last_updated''))),
          (u ''new_value'', PNone),
          (u ''check_time'', PStr now_iso)]))"

section \<open>\<open>compare_metadata\<close>\<close>

text \<open>The first loop, \<open>for key, new_item in new_dict.items()\<close>, appending to \<open>updates\<close>.\<close>

fun detect_changes :: "lookup \<Rightarrow> (key \<times> pydict) list \<Rightarrow> pydict list \<Rightarrow> error + pydict list" where
  "detect_changes old_dict [] updates = Inr updates"
| "detect_changes old_dict ((key, new_item) # rest) updates =
     (case map_of old_dict key of
        None \<Rightarrow>
          and_then (added_entry new_item) (\<lambda>e.
          detect_changes old_dict rest (updates @ [e]))
      | Some old_item \<Rightarrow>
          and_then (changed_entry old_item new_item) (\<lambda>r.
          detect_changes old_dict rest (case r of None \<Rightarrow> updates | Some e \<Rightarrow> updates @ [e])))"

text \<open>
  The second loop, \<open>for key in old_dict\<close>, where \<open>old_dict[key]\<close> is the value stored
  under the key being visited. The wall clock is a parameter: \<open>clock i\<close> is what the
  \<open>i\<close>-th call of \<open>datetime.now().isoformat()\<close> inside \<open>compare_metadata\<close> returns, and
  \<open>tick\<close> counts the calls made so far.
\<close>

fun detect_removed ::
  "(nat \<Rightarrow> pystr) \<Rightarrow> lookup \<Rightarrow> (key \<times> pydict) list \<Rightarrow> nat \<Rightarrow> pydict list \<Rightarrow> error + pydict list" where
  "detect_removed clock new_dict [] tick updates = Inr updates"
| "detect_removed clock new_dict ((key, old_item) # rest) tick updates =
     (if map_of new_dict key = None then
        and_then (removed_entry old_item (clock tick)) (\<lambda>e.
        detect_removed clock new_dict rest (Suc tick) (updates @ [e]))
      else detect_removed clock new_dict rest tick updates)"

definition compare_metadata :: "(nat \<Rightarrow> pystr) \<Rightarrow> pydict list \<Rightarrow> pydict list \<Rightarrow> error + pydict list" where
  "compare_metadata clock old_data new_data =
     and_then (build_lookup old_data []) (\<lambda>old_dict.
     and_then (build_lookup new_data []) (\<lambda>new_dict.
     and_then (detect_changes old_dict new_dict []) (\<lambda>updates.
     detect_removed clock new_dict old_dict 0 updates)))"

section \<open>The data model\<close>

text \<open>
  The identity of a record or of an update entry: the pair of its \<open>source\<close> and \<open>name\<close>.
\<close>

definition entry_key :: "pydict \<Rightarrow> key" where
  "entry_key d = (get d (u ''source''), get d (u ''name''))"

text \<open>
  The records are the dict literals that the two fetchers of \<open>test_data.py\<close> return:
  \<open>get_pypi_metadata\<close> stores \<open>source\<close>, \<open>name\<close>, \<open>version\<close>, \<open>author\<close>, \<open>home_page\<close> and
  \<open>checked_at\<close>; \<open>get_github_metadata\<close> stores \<open>source\<close>, \<open>name\<close>, \<open>stars\<close>, \<open>forks\<close>,
  \<open>last_updated\<close>, \<open>license\<close> and \<open>checked_at\<close>. Every key of the literal is always
  stored, so a field without a value is the value \<open>None\<close> under its key.
\<close>

definition pypi_record :: "pystr \<Rightarrow> pyval \<Rightarrow> pyval \<Rightarrow> pyval \<Rightarrow> pystr \<Rightarrow> pydict" where
  "pypi_record name version author home_page checked_at =
     [(u ''source'', PStr (u ''pypi'')),
      (u ''name'', PStr name),
      (u ''version'', version),
      (u ''author'', author),
      (u ''home_page'', home_page),
      (u ''checked_at'', PStr checked_at)]"

definition github_record :: "pystr \<Rightarrow> pyval \<Rightarrow> pyval \<Rightarrow> pyval \<Rightarrow> pyval \<Rightarrow> pystr \<Rightarrow> pydict" where
  "github_record name stars forks last_updated license checked_at =
     [(u ''source'', PStr (u ''github'')),
      (u ''name'', PStr name),
      (u ''stars'', stars),
      (u ''forks'', forks),
      (u ''last_updated'', last_updated),
      (u ''license'', license),
      (u ''checked_at'', PStr checked_at)]"

fun is_str :: "pyval option \<Rightarrow> bool" where
  "is_str (Some (PStr s)) = True"
| "is_str _ = False"

fun is_opt_str :: "pyval option \<Rightarrow> bool" where
  "is_opt_str (Some (PStr s)) = True"
| "is_opt_str (Some PNone) = True"
| "is_opt_str _ = False"

text \<open>
  A well-formed record has a string \<open>name\<close> and \<open>checked_at\<close>, and is of one of the two
  source kinds: a PyPI record carries \<open>version\<close> (a string or \<open>None\<close>) and no
  \<open>last_updated\<close>; a GitHub record carries \<open>last_updated\<close> (a string or \<open>None\<close>) and
  no \<open>version\<close>. Any further keys are free. A well-formed snapshot has no two records
  of the same identity.
\<close>

definition well_formed :: "pydict \<Rightarrow> bool" where
  "well_formed r \<longleftrightarrow>
     is_str (map_of r (u ''name'')) \<and> is_str (map_of r (u ''checked_at'')) \<and>
     (map_of r (u ''source'') = Some (PStr (u ''pypi'')) \<and>
        is_opt_str (map_of r (u ''version'')) \<and> map_of r (u ''last_updated'') = None
      \<or>
      map_of r (u ''source'') = Some (PStr (u ''github'')) \<and>
        is_opt_str (map_of r (u ''last_updated'')) \<and> map_of r (u ''version'') = None)"

definition well_formed_snapshot :: "pydict list \<Rightarrow> bool" where
  "well_formed_snapshot S \<longleftrightarrow> list_all well_formed S \<and> distinct (map entry_key S)"

text \<open>The comparison field of a record: \<open>version\<close> for PyPI, \<open>last_updated\<close> for GitHub.\<close>

definition comparison_field :: "pydict \<Rightarrow> pyval" where
  "comparison_field r =
     (if get r (u ''source'') = PStr (u ''pypi'') then get r (u ''version'')
      else get r (u ''last_updated''))"

text \<open>Auxiliary predicates of the proofs.\<close>

definition keyed :: "pydict \<Rightarrow> bool" where
  "keyed r \<longleftrightarrow> map_of r (u ''source'') \<noteq> None \<and> map_of r (u ''name'') \<noteq> None"

definition sound_lookup :: "lookup \<Rightarrow> bool" where
  "sound_lookup d \<longleftrightarrow> (\<forall>(k, r) \<in> set d. well_formed r \<and> entry_key r = k)"

text \<open>
  The keys of a list of records in the order of their first occurrence: the iteration
  order of the dict that the comprehension builds.
\<close>

definition keys_in_order :: "pydict list \<Rightarrow> key list" where
  "keys_in_order data =
     foldl (\<lambda>ks k. if k \<in> set ks then ks else ks @ [k]) [] (map entry_key data)"

text \<open>
  What one iteration of the first loop appends for the pair \<open>(key, new_item)\<close>; the
  loop is characterised through it in the proofs.
\<close>

definition change_step :: "lookup \<Rightarrow> key \<times> pydict \<Rightarrow> error + pydict list" where
  "change_step old_dict p =
     (case map_of old_dict (fst p) of
        None \<Rightarrow> and_then (added_entry (snd p)) (\<lambda>e. Inr [e])
      | Some old_item \<Rightarrow>
          and_then (changed_entry old_item (snd p)) (\<lambda>r.
          Inr (case r of None \<Rightarrow> [] | Some e \<Rightarrow> [e])))"

text \<open>An update entry without its \<open>check_time\<close>.\<close>

definition without_check_time :: "pydict \<Rightarrow> pydict" where
  "without_check_time e = filter (\<lambda>p. fst p \<noteq> u ''check_time'') e"

text \<open>
  The descriptive fields that \<open>compare_metadata\<close> never reads, and the relation between
  two records that agree on every other key.
\<close>

definition opaque_fields :: "pystr list" where
  "opaque_fields = [u ''author'', u ''home_page'', u ''stars'', u ''forks'', u ''license'']"

definition same_core :: "pydict \<Rightarrow> pydict \<Rightarrow> bool" where
  "same_core r r' \<longleftrightarrow>
     (\<forall>k \<in> set (map fst r @ map fst r'). k \<in> set opaque_fields \<or> map_of r k = map_of r' k)"

definition same_lookup :: "lookup \<Rightarrow> lookup \<Rightarrow> bool" where
  "same_lookup d d' \<longleftrightarrow> list_all2 (\<lambda>p p'. fst p = fst p' \<and> same_core (snd p) (snd p')) d d'"

section \<open>Writing JSON\<close>

text \<open>
  Both scripts write with \<open>json.dump(data, f, indent=2)\<close>; \<open>test_data.py\<close> passes
  \<open>ensure_ascii=False\<close> in addition, \<open>Get_Date.py\<close> leaves the default \<open>True\<close>. The text
  that \<open>json.dump\<close> produces is modelled for the values of the records (\<open>None\<close>, strings,
  integers), as a sequence of code points; the encoding of that text into the bytes of
  the file is the one of the locale (neither function passes \<open>encoding\<close> to \<open>open\<close>) and
  is not modelled.

  A string is written between quotes. The short escapes of the encoder are those of
  the quote (34), the backslash (92), backspace (8), form feed (12), newline (10), carriage return (13)
  and tab (9); any other control character below 32 is written as backslash, \<open>u\<close> and four hexadecimal digits. With
  \<open>ensure_ascii\<close>, every other character outside 32..126 is written in that way too, as a
  surrogate pair from 65536 on; without it, such a character is written as it is.
\<close>

definition hex_digit :: "nat \<Rightarrow> nat" where
  "hex_digit d = (if d < 10 then 48 + d else 87 + d)"

definition hex4 :: "nat \<Rightarrow> pystr" where
  "hex4 n = [hex_digit (n div 4096 mod 16), hex_digit (n div 256 mod 16),
             hex_digit (n div 16 mod 16), hex_digit (n mod 16)]"

definition u_escape :: "nat \<Rightarrow> pystr" where
  "u_escape n = [92, 117] @ hex4 n"

definition escape_dct :: "nat \<Rightarrow> pystr option" where
  "escape_dct c =
     (if c = 92 then Some [92, 92]
      else if c = 34 then Some [92, 34]
      else if c = 8 then Some [92, 98]
      else if c = 12 then Some [92, 102]
      else if c = 10 then Some [92, 110]
      else if c = 13 then Some [92, 114]
      else if c = 9 then Some [92, 116]
      else if c < 32 then Some (u_escape c)
      else None)"

definition encode_char :: "bool \<Rightarrow> nat \<Rightarrow> pystr" where
  "encode_char ensure_ascii c =
     (case escape_dct c of
        Some s \<Rightarrow> s
      | None \<Rightarrow>
          if ensure_ascii \<and> \<not> (32 \<le> c \<and> c \<le> 126) then
            if c < 65536 then u_escape c
            else u_escape (55296 + (c - 65536) div 1024 mod 1024) @
                 u_escape (56320 + (c - 65536) mod 1024)
          else [c])"

definition encode_basestring :: "bool \<Rightarrow> pystr \<Rightarrow> pystr" where
  "encode_basestring ensure_ascii s = [34] @ concat (map (encode_char ensure_ascii) s) @ [34]"

text \<open>\<open>str(i)\<close> for an integer: its decimal digits, with a minus sign when negative.\<close>

function digits :: "nat \<Rightarrow> pystr" where
  "digits n = (if n < 10 then [48 + n] else digits (n div 10) @ [48 + n mod 10])"
  by pat_completeness auto
termination
  by (relation "measure id") auto

declare digits.simps [simp del]

definition int_repr :: "int \<Rightarrow> pystr" where
  "int_repr i = (if i < 0 then 45 # digits (nat (- i)) else digits (nat i))"

fun json_value :: "bool \<Rightarrow> pyval \<Rightarrow> pystr" where
  "json_value ensure_ascii PNone = u ''null''"
| "json_value ensure_ascii (PStr s) = encode_basestring ensure_ascii s"
| "json_value ensure_ascii (PInt i) = int_repr i"

text \<open>\<open>sep.join(parts)\<close>, and the line break followed by the indentation of a level.\<close>

fun str_join :: "pystr \<Rightarrow> pystr list \<Rightarrow> pystr" where
  "str_join sep [] = []"
| "str_join sep [x] = x"
| "str_join sep (x # y # ys) = x @ sep @ str_join sep (y # ys)"

definition newline_indent :: "nat \<Rightarrow> pystr" where
  "newline_indent level = 10 # replicate (2 * level) 32"

definition json_member :: "bool \<Rightarrow> pystr \<times> pyval \<Rightarrow> pystr" where
  "json_member ensure_ascii kv =
     encode_basestring ensure_ascii (fst kv) @ u '': '' @ json_value ensure_ascii (snd kv)"

definition json_dict :: "bool \<Rightarrow> nat \<Rightarrow> pydict \<Rightarrow> pystr" where
  "json_dict ensure_ascii level d =
     (if d = [] then u ''{}''
      else [123] @ newline_indent (level + 1) @
           str_join (44 # newline_indent (level + 1)) (map (json_member ensure_ascii) d) @
           newline_indent level @ [125])"

definition json_dumps :: "bool \<Rightarrow> pydict list \<Rightarrow> pystr" where
  "json_dumps ensure_ascii data =
     (if data = [] then u ''[]''
      else [91] @ newline_indent 1 @
           str_join (44 # newline_indent 1) (map (json_dict ensure_ascii 1) data) @
           newline_indent 0 @ [93])"

section \<open>The files\<close>

text \<open>
  The file system maps a path to the text of the file. Opening a file for writing and
  writing to it are taken to succeed; where they fail, the functions catch the exception
  and print a message.
\<close>

type_synonym filesystem = "pystr \<rightharpoonup> pystr"

text \<open>\<open>save_to_json\<close> of \<open>test_data.py\<close>.\<close>

definition save_to_json :: "pydict list \<Rightarrow> pystr \<Rightarrow> filesystem \<Rightarrow> filesystem" where
  "save_to_json data output_path fs = fs(output_path \<mapsto> json_dumps False data)"

text \<open>\<open>save_to_json\<close> of \<open>Get_Date.py\<close>.\<close>

definition get_date_save_to_json :: "pydict list \<Rightarrow> pystr \<Rightarrow> filesystem \<Rightarrow> filesystem" where
  "get_date_save_to_json data output_path fs = fs(output_path \<mapsto> json_dumps True data)"

text \<open>
  \<open>save_to_csv\<close>, the same in both scripts. The columns are the keys of the first record.
  \<open>csv.DictWriter\<close> fills a missing key with the empty string and raises \<open>ValueError\<close> on a
  row with a key that is no column; the rows before it are written, and the function
  catches the exception. How \<open>csv.writer\<close> formats one row is the parameter \<open>csv_row\<close>.
\<close>

fun csv_rows :: "(pyval list \<Rightarrow> pystr) \<Rightarrow> pystr list \<Rightarrow> pydict list \<Rightarrow> pystr" where
  "csv_rows csv_row keys [] = []"
| "csv_rows csv_row keys (d # ds) =
     (if \<exists>k \<in> set (map fst d). k \<notin> set keys then []
      else csv_row (map (\<lambda>k. case map_of d k of None \<Rightarrow> PStr [] | Some v \<Rightarrow> v) keys) @
           csv_rows csv_row keys ds)"

definition save_to_csv ::
  "(pyval list \<Rightarrow> pystr) \<Rightarrow> pydict list \<Rightarrow> pystr \<Rightarrow> filesystem \<Rightarrow> filesystem" where
  "save_to_csv csv_row data output_path fs =
     (case data of
        [] \<Rightarrow> fs
      | first # _ \<Rightarrow>
          fs(output_path \<mapsto>
               csv_row (map (\<lambda>k. PStr k) (map fst first)) @ csv_rows csv_row (map fst first) data))"

text \<open>
  \<open>load_previous_metadata\<close>: the empty list when the file does not exist or \<open>json.load\<close>
  raises. \<open>json.load\<close> is the parameter \<open>json_load\<close>, \<open>None\<close> when it raises.
\<close>

definition load_previous_metadata ::
  "(pystr \<Rightarrow> pydict list option) \<Rightarrow> filesystem \<Rightarrow> pystr \<Rightarrow> pydict list" where
  "load_previous_metadata json_load fs file_path =
     (case fs file_path of
        None \<Rightarrow> []
      | Some text \<Rightarrow> (case json_load text of None \<Rightarrow> [] | Some data \<Rightarrow> data))"

section \<open>\<open>main\<close> of \<open>test_data.py\<close>\<close>

text \<open>\<open>os.path.join\<close> of a directory and a relative name, on POSIX.\<close>

definition path_join :: "pystr \<Rightarrow> pystr \<Rightarrow> pystr" where
  "path_join dir name = dir @ u ''/'' @ name"

definition output_dir :: pystr where
  "output_dir = u ''./output''"

definition metadata_json :: pystr where
  "metadata_json = path_join output_dir (u ''metadata.json'')"

definition metadata_csv :: pystr where
  "metadata_csv = path_join output_dir (u ''metadata.csv'')"

text \<open>The path of the report; \<open>stamp\<close> is \<open>datetime.now().strftime('%Y%m%d%H%M')\<close>.\<close>

definition report_path :: "pystr \<Rightarrow> pystr" where
  "report_path stamp = path_join output_dir (u ''update_report_'' @ stamp @ u ''.json'')"

definition targets :: "pydict list" where
  "targets =
     [[(u ''source'', PStr (u ''pypi'')), (u ''name'', PStr (u ''numpy''))],
      [(u ''source'', PStr (u ''pypi'')), (u ''name'', PStr (u ''pandas''))],
      [(u ''source'', PStr (u ''github'')), (u ''name'', PStr (u ''torvalds/linux''))],
      [(u ''source'', PStr (u ''github'')), (u ''name'', PStr (u ''python/cpython''))]]"

text \<open>
  The world outside the program: \<open>env_fetch\<close> is what fetching a target yields (the call
  of \<open>get_pypi_metadata\<close> or \<open>get_github_metadata\<close> for it, \<open>None\<close> when the fetcher
  returns \<open>None\<close> or the \<open>try\<close> block of the loop catches an exception), \<open>env_json_load\<close>
  is \<open>json.load\<close>, \<open>env_now\<close> the clock of \<open>compare_metadata\<close>, \<open>env_stamp\<close> the time stamp
  of the report's name, and \<open>env_csv_row\<close> the row format of \<open>csv.writer\<close>.
\<close>

record environment =
  env_fetch :: "pydict \<Rightarrow> pydict option"
  env_json_load :: "pystr \<Rightarrow> pydict list option"
  env_now :: "nat \<Rightarrow> pystr"
  env_stamp :: pystr
  env_csv_row :: "pyval list \<Rightarrow> pystr"

text \<open>
  The loop that collects \<open>current_data\<close>; \<open>if metadata:\<close> is false for \<open>None\<close> and for an
  empty dict.
\<close>

fun collect_metadata :: "(pydict \<Rightarrow> pydict option) \<Rightarrow> pydict list \<Rightarrow> pydict list \<Rightarrow> pydict list" where
  "collect_metadata fetch [] current_data = current_data"
| "collect_metadata fetch (target # rest) current_data =
     (case fetch target of
        None \<Rightarrow> collect_metadata fetch rest current_data
      | Some metadata \<Rightarrow>
          if metadata \<noteq> [] then collect_metadata fetch rest (current_data @ [metadata])
          else collect_metadata fetch rest current_data)"

text \<open>
  \<open>main\<close> returns the file system it leaves, and the exception that ended it if
  \<open>compare_metadata\<close> raised one (nothing in \<open>main\<close> catches it).
\<close>

definition main :: "environment \<Rightarrow> filesystem \<Rightarrow> filesystem \<times> error option" where
  "main env fs =
     (let previous_data = load_previous_metadata (env_json_load env) fs metadata_json;
          current_data = collect_metadata (env_fetch env) targets [];
          fs1 = (if current_data \<noteq> [] then
                   save_to_csv (env_csv_row env) current_data metadata_csv
                     (save_to_json current_data metadata_json fs)
                 else fs)
      in case compare_metadata (env_now env) previous_data current_data of
           Inl e \<Rightarrow> (fs1, Some e)
         | Inr update_report \<Rightarrow>
             if update_report \<noteq> [] then
               (save_to_json update_report (report_path (env_stamp env)) fs1, None)
             else (fs1, None))"

section \<open>Example records and snapshots\<close>

definition numpy_1_0 :: pydict where
  "numpy_1_0 = pypi_record (u ''numpy'') (PStr (u ''1.0'')) PNone PNone (u ''2023-01-01T00:00:00'')"

definition numpy_1_1 :: pydict where
  "numpy_1_1 = pypi_record (u ''numpy'') (PStr (u ''1.1'')) PNone PNone (u ''2023-02-01T00:00:00'')"

definition pandas_2_0 :: pydict where
  "pandas_2_0 = pypi_record (u ''pandas'') (PStr (u ''2.0'')) PNone PNone (u ''2023-02-01T00:00:01'')"

definition linux_2023 :: pydict where
  "linux_2023 =
     github_record (u ''torvalds/linux'') (PInt 150000) (PInt 50000) (PStr (u ''2023-01-01''))
       (PStr (u ''GPL-2.0'')) (u ''2023-01-01T00:00:01'')"

text \<open>The same repository with other stars, forks and license.\<close>

definition linux_2023_starred :: pydict where
  "linux_2023_starred =
     github_record (u ''torvalds/linux'') (PInt 150001) (PInt 50002) (PStr (u ''2023-01-01''))
       PNone (u ''2023-01-01T00:00:01'')"

text \<open>Records whose comparison field has no value.\<close>

definition numpy_unversioned :: pydict where
  "numpy_unversioned = pypi_record (u ''numpy'') PNone PNone PNone (u ''2023-01-01T00:00:00'')"

definition cpython_undated :: pydict where
  "cpython_undated =
     github_record (u ''python/cpython'') (PInt 60000) (PInt 30000) PNone PNone
       (u ''2023-01-01T00:00:01'')"

text \<open>A PyPI record whose version is the empty string.\<close>

definition empty_version :: pydict where
  "empty_version = pypi_record (u ''pkg'') (PStr []) PNone PNone (u ''2023-01-01T00:00:00'')"

text \<open>A PyPI record that lacks the \<open>version\<close> key altogether.\<close>

definition numpy_keyless :: pydict where
  "numpy_keyless =
     [(u ''source'', PStr (u ''pypi'')), (u ''name'', PStr (u ''numpy'')),
      (u ''checked_at'', PStr (u ''2023-01-01T00:00:00''))]"

text \<open>The scenario of the specification.\<close>

definition scenario_previous :: "pydict list" where
  "scenario_previous = [numpy_1_0, linux_2023]"

definition scenario_current :: "pydict list" where
  "scenario_current = [numpy_1_1, pandas_2_0]"

definition unversioned_snapshot :: "pydict list" where
  "unversioned_snapshot = [numpy_unversioned, cpython_undated]"

definition fixed_clock :: "nat \<Rightarrow> pystr" where
  "fixed_clock i = u ''2023-03-01T00:00:00''"

text \<open>
  A record as \<open>get_pypi_metadata\<close> of \<open>Get_Date.py\<close> returns it, with the author
  \<open>Jos\<close> followed by U+00E9.
\<close>

definition accented_author :: "pydict list" where
  "accented_author =
     [[(u ''source'', PStr (u ''pypi'')), (u ''name'', PStr (u ''x'')),
       (u ''version'', PStr (u ''1.0'')), (u ''author'', PStr [74, 111, 115, 233]),
       (u ''home_page'', PNone)]]"

text \<open>A run in which every fetch fails, over a file system that holds a snapshot.\<close>

definition failing_environment :: environment where
  "failing_environment =
     \<lparr>env_fetch = (\<lambda>target. None),
      env_json_load = (\<lambda>text. Some scenario_previous),
      env_now = fixed_clock,
      env_stamp = u ''202303010000'',
      env_csv_row = (\<lambda>row. [])\<rparr>"

definition stored_snapshot :: filesystem where
  "stored_snapshot = [metadata_json \<mapsto> json_dumps False scenario_previous]"

section \<open>Lemmas\<close>

lemma u_eq_iff [simp]: "u s = u t \<longleftrightarrow> s = t"
  by (simp add: u_def inj_map_eq_map inj_on_def)

lemma u_nil_iff [simp]: "u s = [] \<longleftrightarrow> s = []"
  by (simp add: u_def)

lemma and_then_Inr [simp]: "and_then (Inr x) f = f x"
  by (simp add: and_then_def)

lemma and_then_Inl [simp]: "and_then (Inl e) f = Inl e"
  by (simp add: and_then_def)

lemma and_then_eq_Inr: "and_then m f = Inr y \<longleftrightarrow> (\<exists>x. m = Inr x \<and> f x = Inr y)"
  by (cases m) simp_all

lemma and_then_assoc: "and_then (and_then m f) g = and_then m (\<lambda>x. and_then (f x) g)"
  by (cases m) simp_all

lemma and_then_return [simp]: "and_then m Inr = m"
  by (cases m) simp_all

subsection \<open>setitem\<close>

lemma map_of_setitem: "map_of (setitem d k v) = (map_of d)(k \<mapsto> v)"
  by (induction d) (auto simp: fun_eq_iff)

lemma fst_in_keys: "(k, v) \<in> set d \<Longrightarrow> k \<in> fst ` set d"
  by force

lemma setitem_fresh: "k \<notin> fst ` set d \<Longrightarrow> setitem d k v = d @ [(k, v)]"
  by (induction d) auto

lemma setitem_present: "k \<in> fst ` set d \<Longrightarrow> map fst (setitem d k v) = map fst d"
proof (induction d)
  case Nil
  then show ?case by simp
next
  case (Cons p d)
  obtain k' v' where p: "p = (k', v')" by (cases p)
  show ?case
  proof (cases "k' = k")
    case True
    then show ?thesis by (simp add: p)
  next
    case False
    with Cons.prems have "k \<in> fst ` set d" by (auto simp: p)
    with Cons.IH False show ?thesis by (simp add: p)
  qed
qed

lemma keys_setitem:
  "map fst (setitem d k v) = (if k \<in> fst ` set d then map fst d else map fst d @ [k])"
  by (simp add: setitem_fresh setitem_present)

lemma distinct_setitem: "distinct (map fst d) \<Longrightarrow> distinct (map fst (setitem d k v))"
  by (simp add: keys_setitem)

lemma set_setitem: "set (setitem d k v) \<subseteq> insert (k, v) (set d)"
  by (induction d) (auto split: if_splits)

lemma keys_set_setitem: "fst ` set (setitem d k v) = insert k (fst ` set d)"
proof -
  have "set (map fst (setitem d k v)) = insert k (set (map fst d))"
    unfolding keys_setitem by auto
  then show ?thesis by simp
qed

subsection \<open>build_lookup\<close>

lemma build_lookup_step:
  "keyed r \<Longrightarrow> build_lookup (r # rest) d = build_lookup rest (setitem d (entry_key r) r)"
  by (auto simp: keyed_def getitem_def get_def entry_key_def)

lemma build_lookup_total:
  "list_all keyed data \<Longrightarrow> \<exists>d'. build_lookup data d = Inr d'"
  by (induction data arbitrary: d) (simp_all add: build_lookup_step del: build_lookup.simps(2))

lemma build_lookup_keyed:
  "build_lookup data d = Inr d' \<Longrightarrow> list_all keyed data"
  by (induction data arbitrary: d)
     (auto simp: and_then_eq_Inr getitem_def keyed_def split: option.splits)

lemma build_lookup_distinct:
  "build_lookup data d = Inr d' \<Longrightarrow> distinct (map fst d) \<Longrightarrow> distinct (map fst d')"
proof (induction data arbitrary: d)
  case Nil
  then show ?case by simp
next
  case (Cons r rest)
  have k: "keyed r"
    using build_lookup_keyed [OF Cons.prems(1)] by simp
  with Cons.prems(1) have "build_lookup rest (setitem d (entry_key r) r) = Inr d'"
    by (simp only: build_lookup_step)
  then show ?case
    by (rule Cons.IH) (rule distinct_setitem [OF Cons.prems(2)])
qed

lemma build_lookup_members:
  assumes "build_lookup data d = Inr d'" and "(k, r) \<in> set d'"
  shows "(k, r) \<in> set d \<or> (r \<in> set data \<and> entry_key r = k)"
  using assms
proof (induction data arbitrary: d)
  case Nil
  then show ?case by simp
next
  case (Cons x rest)
  have kx: "keyed x"
    using build_lookup_keyed [OF Cons.prems(1)] by simp
  with Cons.prems(1) have "build_lookup rest (setitem d (entry_key x) x) = Inr d'"
    by (simp only: build_lookup_step)
  from Cons.IH [OF this Cons.prems(2)]
  have "(k, r) \<in> set (setitem d (entry_key x) x) \<or> r \<in> set rest \<and> entry_key r = k" .
  moreover have "(k, r) \<in> set (setitem d (entry_key x) x) \<Longrightarrow> (k, r) \<in> set d \<or> (k, r) = (entry_key x, x)"
    using set_setitem [of d "entry_key x" x] by blast
  ultimately show ?case by auto
qed

lemma build_lookup_keys:
  "build_lookup data d = Inr d' \<Longrightarrow> fst ` set d' = fst ` set d \<union> entry_key ` set data"
proof (induction data arbitrary: d)
  case Nil
  then show ?case by simp
next
  case (Cons x rest)
  have kx: "keyed x"
    using build_lookup_keyed [OF Cons.prems(1)] by simp
  with Cons.prems(1) have "build_lookup rest (setitem d (entry_key x) x) = Inr d'"
    by (simp only: build_lookup_step)
  from Cons.IH [OF this] show ?case
    by (simp add: keys_set_setitem)
qed

lemma build_lookup_distinct_keys:
  "list_all keyed data \<Longrightarrow> distinct (map fst d @ map entry_key data) \<Longrightarrow>
   build_lookup data d = Inr (d @ map (\<lambda>r. (entry_key r, r)) data)"
proof (induction data arbitrary: d)
  case Nil
  then show ?case by simp
next
  case (Cons x rest)
  from Cons.prems(2) have fresh: "entry_key x \<notin> fst ` set d" by auto
  from Cons.prems(1) have kx: "keyed x" by simp
  have "build_lookup (x # rest) d = build_lookup rest (d @ [(entry_key x, x)])"
    by (simp only: build_lookup_step [OF kx] setitem_fresh [OF fresh])
  also have "\<dots> = Inr ((d @ [(entry_key x, x)]) @ map (\<lambda>r. (entry_key r, r)) rest)"
  proof (rule Cons.IH)
    show "list_all keyed rest" using Cons.prems(1) by simp
    show "distinct (map fst (d @ [(entry_key x, x)]) @ map entry_key rest)"
      using Cons.prems(2) by auto
  qed
  finally show ?case by simp
qed

lemma is_str_iff: "is_str x \<longleftrightarrow> (\<exists>s. x = Some (PStr s))"
  by (cases x rule: is_str.cases) simp_all

lemma is_opt_str_iff: "is_opt_str x \<longleftrightarrow> x = Some PNone \<or> (\<exists>s. x = Some (PStr s))"
  by (cases x rule: is_opt_str.cases) simp_all

lemma is_opt_str_Some: "is_opt_str x \<Longrightarrow> \<exists>v. x = Some v"
  by (auto simp: is_opt_str_iff)

lemma getitem_Some: "map_of d k = Some v \<Longrightarrow> getitem d k = Inr v"
  by (simp add: getitem_def)

lemma getitem_None: "map_of d k = None \<Longrightarrow> getitem d k = Inl (KeyError k)"
  by (simp add: getitem_def)

lemma get_Some: "map_of d k = Some v \<Longrightarrow> get d k = v"
  by (simp add: get_def)

lemma get_None: "map_of d k = None \<Longrightarrow> get d k = PNone"
  by (simp add: get_def)

lemma well_formed_cases:
  assumes "well_formed r"
  obtains (pypi) n t v where
      "map_of r (u ''source'') = Some (PStr (u ''pypi''))"
      "map_of r (u ''name'') = Some (PStr n)"
      "map_of r (u ''checked_at'') = Some (PStr t)"
      "map_of r (u ''version'') = Some v"
      "map_of r (u ''last_updated'') = None"
      "v = PNone \<or> (\<exists>s. v = PStr s)"
  | (github) n t v where
      "map_of r (u ''source'') = Some (PStr (u ''github''))"
      "map_of r (u ''name'') = Some (PStr n)"
      "map_of r (u ''checked_at'') = Some (PStr t)"
      "map_of r (u ''last_updated'') = Some v"
      "map_of r (u ''version'') = None"
      "v = PNone \<or> (\<exists>s. v = PStr s)"
  using assms unfolding well_formed_def is_str_iff is_opt_str_iff by blast

lemma well_formed_keyed: "well_formed r \<Longrightarrow> keyed r"
  by (erule well_formed_cases) (simp_all add: keyed_def)

lemma well_formed_source:
  "well_formed r \<Longrightarrow> fst (entry_key r) = PStr (u ''pypi'') \<or> fst (entry_key r) = PStr (u ''github'')"
  by (erule well_formed_cases) (simp_all add: entry_key_def get_Some)

lemma added_entry_total: "well_formed r \<Longrightarrow> \<exists>e. added_entry r = Inr e"
  by (erule well_formed_cases) (simp_all add: added_entry_def getitem_Some)

lemma removed_entry_total: "well_formed r \<Longrightarrow> \<exists>e. removed_entry r t = Inr e"
  by (erule well_formed_cases) (simp_all add: removed_entry_def getitem_Some)

lemma field_differs_other:
  "map_of n (u ''source'') = Some s \<Longrightarrow> s \<noteq> PStr src \<Longrightarrow> field_differs o' n src field = Inr False"
  by (simp add: field_differs_def getitem_Some)

lemma field_differs_same:
  "map_of n (u ''source'') = Some (PStr src) \<Longrightarrow> map_of o' field = Some ov \<Longrightarrow>
   map_of n field = Some nv \<Longrightarrow> field_differs o' n src field = Inr (ov \<noteq> nv)"
  by (simp add: field_differs_def getitem_Some)

lemma updated_entry_Inr:
  "map_of n (u ''name'') = Some nm \<Longrightarrow> map_of o' field = Some ov \<Longrightarrow>
   map_of n field = Some nv \<Longrightarrow> map_of n (u ''checked_at'') = Some t \<Longrightarrow>
   updated_entry o' n src field change =
     Inr [(u ''source'', PStr src), (u ''name'', nm), (u ''change_type'', PStr change),
          (u ''old_value'', ov), (u ''new_value'', nv), (u ''check_time'', t)]"
  by (simp add: updated_entry_def getitem_Some)

lemma changed_entry_total:
  assumes "well_formed o'" and "well_formed n" and "entry_key o' = entry_key n"
  shows "\<exists>r. changed_entry o' n = Inr r"
proof -
  from assms(3) have src: "get o' (u ''source'') = get n (u ''source'')"
    by (simp add: entry_key_def)
  from assms(2) show ?thesis
  proof (cases rule: well_formed_cases)
    case (pypi nm t v)
    from assms(1) obtain ov where ov: "map_of o' (u ''version'') = Some ov"
      using src pypi(1)
      by (cases rule: well_formed_cases) (auto simp: get_Some)
    show ?thesis
      by (simp add: changed_entry_def field_differs_same [OF pypi(1) ov pypi(4)]
          field_differs_other [OF pypi(1)] updated_entry_Inr [OF pypi(2) ov pypi(4) pypi(3)])
  next
    case (github nm t v)
    from assms(1) obtain ov where ov: "map_of o' (u ''last_updated'') = Some ov"
      using src github(1)
      by (cases rule: well_formed_cases) (auto simp: get_Some)
    show ?thesis
      by (simp add: changed_entry_def field_differs_same [OF github(1) ov github(4)]
          field_differs_other [OF github(1)] updated_entry_Inr [OF github(2) ov github(4) github(3)])
  qed
qed

lemma changed_entry_same: "well_formed r \<Longrightarrow> changed_entry r r = Inr None"
proof (erule well_formed_cases)
  fix n t v
  assume a: "map_of r (u ''source'') = Some (PStr (u ''pypi''))" "map_of r (u ''version'') = Some v"
  show "changed_entry r r = Inr None"
    by (simp add: changed_entry_def field_differs_same [OF a(1) a(2) a(2)] field_differs_other [OF a(1)])
next
  fix n t v
  assume a: "map_of r (u ''source'') = Some (PStr (u ''github''))" "map_of r (u ''last_updated'') = Some v"
  show "changed_entry r r = Inr None"
    by (simp add: changed_entry_def field_differs_same [OF a(1) a(2) a(2)] field_differs_other [OF a(1)])
qed

lemma sound_lookup_Cons: "sound_lookup ((k, r) # d) \<longleftrightarrow> well_formed r \<and> entry_key r = k \<and> sound_lookup d"
  by (auto simp: sound_lookup_def)

lemma sound_lookup_map_of: "sound_lookup d \<Longrightarrow> map_of d k = Some r \<Longrightarrow> well_formed r \<and> entry_key r = k"
  by (auto simp: sound_lookup_def dest: map_of_SomeD)

lemma build_lookup_sound:
  assumes "list_all well_formed data" and "build_lookup data [] = Inr d"
  shows "sound_lookup d"
  unfolding sound_lookup_def
proof clarify
  fix k r assume "(k, r) \<in> set d"
  with build_lookup_members [OF assms(2)] have "r \<in> set data \<and> entry_key r = k" by auto
  with assms(1) show "well_formed r \<and> entry_key r = k" by (auto simp: list_all_iff)
qed

lemma build_lookup_well_formed:
  assumes "list_all well_formed data"
  obtains d where "build_lookup data [] = Inr d" "sound_lookup d" "distinct (map fst d)"
proof -
  from assms have "list_all keyed data"
    by (auto simp: list_all_iff well_formed_keyed)
  then obtain d where d: "build_lookup data [] = Inr d"
    using build_lookup_total by blast
  show thesis
    by (rule that [OF d build_lookup_sound [OF assms d]]) (rule build_lookup_distinct [OF d], simp)
qed

lemma detect_changes_total:
  "sound_lookup old_dict \<Longrightarrow> sound_lookup items \<Longrightarrow> \<exists>updates'. detect_changes old_dict items updates = Inr updates'"
proof (induction items arbitrary: updates)
  case Nil
  then show ?case by simp
next
  case (Cons p items)
  obtain k n where p: "p = (k, n)" by (cases p)
  from Cons.prems(2) have n: "well_formed n" "entry_key n = k" and rest: "sound_lookup items"
    by (simp_all add: p sound_lookup_Cons)
  show ?case
  proof (cases "map_of old_dict k")
    case None
    from added_entry_total [OF n(1)] obtain e where "added_entry n = Inr e" ..
    with None Cons.IH [OF Cons.prems(1) rest] show ?thesis by (simp add: p)
  next
    case (Some o')
    from sound_lookup_map_of [OF Cons.prems(1) Some] n(2)
    have "well_formed o'" "entry_key o' = entry_key n" by simp_all
    from changed_entry_total [OF this(1) n(1) this(2)] obtain r where "changed_entry o' n = Inr r" ..
    with Some Cons.IH [OF Cons.prems(1) rest] show ?thesis by (simp add: p)
  qed
qed

lemma detect_removed_total:
  "sound_lookup items \<Longrightarrow> \<exists>updates'. detect_removed clock new_dict items tick updates = Inr updates'"
proof (induction items arbitrary: tick updates)
  case Nil
  then show ?case by simp
next
  case (Cons p items)
  obtain k o' where p: "p = (k, o')" by (cases p)
  from Cons.prems have o: "well_formed o'" and rest: "sound_lookup items"
    by (simp_all add: p sound_lookup_Cons)
  from removed_entry_total [OF o] obtain e where "removed_entry o' (clock tick) = Inr e" ..
  with Cons.IH [OF rest] show ?case by (simp add: p)
qed

lemma detect_changes_unchanged:
  "(\<forall>(k, n) \<in> set items. well_formed n \<and> map_of old_dict k = Some n) \<Longrightarrow>
   detect_changes old_dict items updates = Inr updates"
proof (induction items)
  case Nil
  then show ?case by simp
next
  case (Cons p items)
  obtain k n where p: "p = (k, n)" by (cases p)
  from Cons.prems have n: "well_formed n" "map_of old_dict k = Some n"
    by (simp_all add: p)
  from Cons.prems Cons.IH have "detect_changes old_dict items updates = Inr updates" by simp
  then show ?case by (simp add: p n(2) changed_entry_same [OF n(1)])
qed

lemma detect_removed_unchanged:
  "(\<forall>(k, n) \<in> set items. map_of new_dict k \<noteq> None) \<Longrightarrow>
   detect_removed clock new_dict items tick updates = Inr updates"
  by (induction items) auto


subsection \<open>The two loops\<close>

lemma detect_changes_acc:
  "detect_changes od items acc = and_then (detect_changes od items []) (\<lambda>es. Inr (acc @ es))"
proof (induction items arbitrary: acc)
  case Nil
  then show ?case by simp
next
  case (Cons p items)
  obtain k n where p: "p = (k, n)" by (cases p)
  have shift: "detect_changes od items (acc @ es1) =
      and_then (detect_changes od items es1) (\<lambda>es. Inr (acc @ es))" for es1
    by (subst Cons.IH [of "acc @ es1"], subst Cons.IH [of es1])
       (simp add: and_then_assoc)
  show ?case
  proof (cases "map_of od k")
    case None
    show ?thesis
      using shift [of "[e]" for e]
      by (cases "added_entry n") (simp_all add: p None)
  next
    case (Some o')
    show ?thesis
    proof (cases "changed_entry o' n")
      case (Inl e)
      then show ?thesis by (simp add: p Some)
    next
      case (Inr r)
      then show ?thesis
        using shift [of "[e]" for e] shift [of "[]"]
        by (cases r) (simp_all add: p Some)
    qed
  qed
qed

lemma detect_changes_Cons:
  "detect_changes od (p # items) [] =
     and_then (change_step od p) (\<lambda>es1.
     and_then (detect_changes od items []) (\<lambda>es2. Inr (es1 @ es2)))"
proof -
  obtain k n where p: "p = (k, n)" by (cases p)
  show ?thesis
  proof (cases "map_of od k")
    case None
    show ?thesis
      by (cases "added_entry n")
         (simp_all add: p None change_step_def detect_changes_acc [of od items "[e]" for e])
  next
    case (Some o')
    show ?thesis
    proof (cases "changed_entry o' n")
      case (Inl e)
      then show ?thesis by (simp add: p Some change_step_def)
    next
      case (Inr r)
      then show ?thesis
        by (cases r)
           (simp_all add: p Some change_step_def detect_changes_acc [of od items "[e]" for e])
    qed
  qed
qed

lemma detect_changes_Cons_Inr:
  assumes "detect_changes od (p # items) [] = Inr es"
  obtains es1 es2 where "change_step od p = Inr es1" "detect_changes od items [] = Inr es2"
    "es = es1 @ es2"
  using assms unfolding detect_changes_Cons by (auto simp: and_then_eq_Inr)

lemma detect_removed_acc:
  "detect_removed clock nd items tick acc =
     and_then (detect_removed clock nd items tick []) (\<lambda>es. Inr (acc @ es))"
proof (induction items arbitrary: tick acc)
  case Nil
  then show ?case by simp
next
  case (Cons p items)
  obtain k o' where p: "p = (k, o')" by (cases p)
  have shift: "detect_removed clock nd items t (acc @ es1) =
      and_then (detect_removed clock nd items t es1) (\<lambda>es. Inr (acc @ es))" for es1 t
    by (subst Cons.IH [of t "acc @ es1"], subst Cons.IH [of t es1])
       (simp add: and_then_assoc)
  show ?case
  proof (cases "map_of nd k = None")
    case True
    show ?thesis
      using shift [of _ "[e]" for e]
      by (cases "removed_entry o' (clock tick)") (simp_all add: p True)
  next
    case False
    show ?thesis
      using Cons.IH [of tick acc] by (simp add: p False)
  qed
qed

lemma detect_removed_Cons:
  "detect_removed clock nd ((k, o') # items) tick [] =
     (if map_of nd k = None then
        and_then (removed_entry o' (clock tick)) (\<lambda>e.
        and_then (detect_removed clock nd items (Suc tick) []) (\<lambda>es. Inr (e # es)))
      else detect_removed clock nd items tick [])"
  by (cases "removed_entry o' (clock tick)")
     (simp_all add: detect_removed_acc [of clock nd items "Suc tick" "[e]" for e])

lemma getitem_Inr: "getitem d k = Inr v \<Longrightarrow> map_of d k = Some v"
  by (simp add: getitem_def split: option.splits)

lemma added_entry_Inr:
  assumes "added_entry n = Inr e"
  shows "entry_key e = entry_key n" and "get e (u ''change_type'') = PStr ct_added"
  using assms
  by (auto simp: added_entry_def and_then_eq_Inr entry_key_def get_def dest!: getitem_Inr)

lemma removed_entry_Inr:
  assumes "removed_entry o' t = Inr e"
  shows "entry_key e = entry_key o'" and "get e (u ''change_type'') = PStr ct_removed"
  using assms
  by (auto simp: removed_entry_def and_then_eq_Inr entry_key_def get_def dest!: getitem_Inr)

lemma field_differs_True:
  "field_differs o' n src field = Inr True \<Longrightarrow> map_of n (u ''source'') = Some (PStr src)"
  by (auto simp: field_differs_def and_then_eq_Inr split: if_splits dest!: getitem_Inr)

lemma updated_entry_key:
  assumes "updated_entry o' n src field change = Inr e"
    and "map_of n (u ''source'') = Some (PStr src)"
  shows "entry_key e = entry_key n" and "get e (u ''change_type'') = PStr change"
  using assms
  by (auto simp: updated_entry_def and_then_eq_Inr entry_key_def get_def dest!: getitem_Inr)

lemma changed_entry_Some:
  assumes "changed_entry o' n = Inr (Some e)"
  shows "entry_key e = entry_key n"
    and "get e (u ''change_type'') = PStr ct_version_update \<or>
         get e (u ''change_type'') = PStr ct_repo_update"
proof -
  from assms consider
      (pypi) "field_differs o' n (u ''pypi'') (u ''version'') = Inr True"
        "updated_entry o' n (u ''pypi'') (u ''version'') ct_version_update = Inr e"
    | (github) "field_differs o' n (u ''github'') (u ''last_updated'') = Inr True"
        "updated_entry o' n (u ''github'') (u ''last_updated'') ct_repo_update = Inr e"
    by (auto simp: changed_entry_def and_then_eq_Inr split: if_splits)
  then have "entry_key e = entry_key n \<and>
    (get e (u ''change_type'') = PStr ct_version_update \<or>
     get e (u ''change_type'') = PStr ct_repo_update)"
  proof cases
    case pypi
    from updated_entry_key [OF pypi(2) field_differs_True [OF pypi(1)]] show ?thesis by simp
  next
    case github
    from updated_entry_key [OF github(2) field_differs_True [OF github(1)]] show ?thesis by simp
  qed
  then show "entry_key e = entry_key n"
    and "get e (u ''change_type'') = PStr ct_version_update \<or>
         get e (u ''change_type'') = PStr ct_repo_update" by simp_all
qed

lemma ct_distinct [simp]:
  "ct_added \<noteq> ct_removed" "ct_version_update \<noteq> ct_removed" "ct_repo_update \<noteq> ct_removed"
  "ct_added \<noteq> ct_version_update" "ct_added \<noteq> ct_repo_update"
  "ct_version_update \<noteq> ct_repo_update"
  by (simp_all add: ct_added_def ct_removed_def ct_version_update_def ct_repo_update_def)

lemma change_step_entries:
  assumes "change_step od (k, n) = Inr es" and "e \<in> set es"
  shows "entry_key e = entry_key n" and "get e (u ''change_type'') \<noteq> PStr ct_removed"
proof -
  have "entry_key e = entry_key n \<and> get e (u ''change_type'') \<noteq> PStr ct_removed"
  proof (cases "map_of od k")
    case None
    with assms obtain e' where "added_entry n = Inr e'" "es = [e']"
      by (auto simp: change_step_def and_then_eq_Inr)
    with assms(2) added_entry_Inr [of n e] show ?thesis by simp
  next
    case (Some o')
    with assms obtain r where r: "changed_entry o' n = Inr r" "es = (case r of None \<Rightarrow> [] | Some e \<Rightarrow> [e])"
      by (auto simp: change_step_def and_then_eq_Inr)
    with assms(2) have "changed_entry o' n = Inr (Some e)"
      by (cases r) simp_all
    from changed_entry_Some [OF this] show ?thesis by auto
  qed
  then show "entry_key e = entry_key n" and "get e (u ''change_type'') \<noteq> PStr ct_removed"
    by simp_all
qed

lemma change_step_length: "change_step od p = Inr es \<Longrightarrow> length es \<le> 1"
  by (auto simp: change_step_def and_then_eq_Inr split: option.splits)

lemma build_lookup_order_gen:
  "build_lookup data d = Inr d' \<Longrightarrow>
   map fst d' = foldl (\<lambda>ks k. if k \<in> set ks then ks else ks @ [k]) (map fst d) (map entry_key data)"
proof (induction data arbitrary: d)
  case Nil
  then show ?case by simp
next
  case (Cons x rest)
  have kx: "keyed x"
    using build_lookup_keyed [OF Cons.prems(1)] by simp
  with Cons.prems(1) have "build_lookup rest (setitem d (entry_key x) x) = Inr d'"
    by (simp only: build_lookup_step)
  from Cons.IH [OF this] show ?case
    by (simp add: keys_setitem)
qed

lemma build_lookup_order:
  "build_lookup data [] = Inr d \<Longrightarrow> map fst d = keys_in_order data"
  using build_lookup_order_gen [of data "[]" d] by (simp add: keys_in_order_def)

lemma build_lookup_entry_keys:
  assumes "build_lookup data [] = Inr d" and "(k, r) \<in> set d"
  shows "entry_key r = k"
  using build_lookup_members [OF assms] by simp

lemma detect_changes_order:
  assumes "\<forall>(k, n) \<in> set items. entry_key n = k"
    and "detect_changes od items [] = Inr es"
  shows "subseq (map entry_key es) (map fst items) \<and>
         (\<forall>e \<in> set es. get e (u ''change_type'') \<noteq> PStr ct_removed)"
  using assms
proof (induction items arbitrary: es)
  case Nil
  then show ?case by simp
next
  case (Cons p items)
  obtain k n where p: "p = (k, n)" by (cases p)
  from Cons.prems(2) obtain es1 es2 where
    es: "change_step od (k, n) = Inr es1" "detect_changes od items [] = Inr es2" "es = es1 @ es2"
    unfolding p by (rule detect_changes_Cons_Inr)
  from Cons.prems(1) have kn: "entry_key n = k" and rest: "\<forall>(k, n) \<in> set items. entry_key n = k"
    by (simp_all add: p)
  from Cons.IH [OF rest es(2)] have
    ih: "subseq (map entry_key es2) (map fst items)"
      "\<forall>e \<in> set es2. get e (u ''change_type'') \<noteq> PStr ct_removed" by simp_all
  have one: "es1 = [] \<or> (\<exists>e. es1 = [e])"
    using change_step_length [OF es(1)] by (cases es1) auto
  have keys1: "\<forall>e \<in> set es1. entry_key e = k \<and> get e (u ''change_type'') \<noteq> PStr ct_removed"
    using change_step_entries [OF es(1)] kn by auto
  from one have "subseq (map entry_key es1 @ map entry_key es2) (k # map fst items)"
  proof
    assume "es1 = []"
    with ih(1) show ?thesis by (simp add: list_emb_Cons)
  next
    assume "\<exists>e. es1 = [e]"
    then obtain e where e: "es1 = [e]" ..
    with keys1 have "entry_key e = k" by simp
    with ih(1) e show ?thesis by simp
  qed
  with keys1 ih(2) show ?case by (auto simp: es(3) p)
qed

lemma detect_removed_order:
  assumes "\<forall>(k, o') \<in> set items. entry_key o' = k"
    and "detect_removed clock nd items tick [] = Inr rs"
  shows "map entry_key rs = filter (\<lambda>k. map_of nd k = None) (map fst items) \<and>
         (\<forall>e \<in> set rs. get e (u ''change_type'') = PStr ct_removed)"
  using assms
proof (induction items arbitrary: tick rs)
  case Nil
  then show ?case by simp
next
  case (Cons p items)
  obtain k o' where p: "p = (k, o')" by (cases p)
  from Cons.prems(1) have ko: "entry_key o' = k" and rest: "\<forall>(k, o') \<in> set items. entry_key o' = k"
    by (simp_all add: p)
  show ?case
  proof (cases "map_of nd k = None")
    case True
    with Cons.prems(2) [unfolded p detect_removed_Cons] obtain e rs' where
      e: "removed_entry o' (clock tick) = Inr e"
        "detect_removed clock nd items (Suc tick) [] = Inr rs'" "rs = e # rs'"
      by (auto simp: and_then_eq_Inr)
    from Cons.IH [OF rest e(2)] removed_entry_Inr [OF e(1)] ko True
    show ?thesis by (simp add: e(3) p)
  next
    case False
    with Cons.prems(2) [unfolded p detect_removed_Cons]
    have "detect_removed clock nd items tick [] = Inr rs"
      by simp
    from Cons.IH [OF rest this] False show ?thesis by (simp add: p)
  qed
qed

lemma map_of_None_keys: "map_of d k = None \<longleftrightarrow> k \<notin> set (map fst d)"
  by (simp add: map_of_eq_None_iff)

lemma compare_metadata_order:
  assumes "compare_metadata clock old_data new_data = Inr updates"
  shows "\<exists>changes removals. updates = changes @ removals \<and>
           subseq (map entry_key changes) (keys_in_order new_data) \<and>
           (\<forall>e \<in> set changes. get e (u ''change_type'') \<noteq> PStr ct_removed) \<and>
           map entry_key removals =
             filter (\<lambda>k. k \<notin> set (keys_in_order new_data)) (keys_in_order old_data) \<and>
           (\<forall>e \<in> set removals. get e (u ''change_type'') = PStr ct_removed)"
proof -
  from assms obtain od nd changes where
    od: "build_lookup old_data [] = Inr od" and nd: "build_lookup new_data [] = Inr nd"
    and ch: "detect_changes od nd [] = Inr changes"
    and rm: "detect_removed clock nd od 0 changes = Inr updates"
    by (auto simp: compare_metadata_def and_then_eq_Inr)
  from rm obtain removals where
    rs: "detect_removed clock nd od 0 [] = Inr removals" "updates = changes @ removals"
    by (subst (asm) detect_removed_acc) (auto simp: and_then_eq_Inr)
  have nk: "\<forall>(k, n) \<in> set nd. entry_key n = k"
    using build_lookup_entry_keys [OF nd] by auto
  have ok: "\<forall>(k, n) \<in> set od. entry_key n = k"
    using build_lookup_entry_keys [OF od] by auto
  from detect_changes_order [OF nk ch] detect_removed_order [OF ok rs(1)]
  show ?thesis
    using rs(2) by (auto simp: build_lookup_order [OF nd] build_lookup_order [OF od]
        map_of_None_keys simp del: set_map)
qed

lemma removed_entry_clock:
  "map_sum id without_check_time (removed_entry o' t) =
   map_sum id without_check_time (removed_entry o' t')"
  by (cases "getitem o' (u ''source'')"; cases "getitem o' (u ''name'')")
     (simp_all add: removed_entry_def without_check_time_def)

lemma detect_removed_clock:
  "map_sum id (map without_check_time) (detect_removed clock nd items tick []) =
   map_sum id (map without_check_time) (detect_removed clock' nd items tick' [])"
proof (induction items arbitrary: tick tick')
  case Nil
  then show ?case by simp
next
  case (Cons p items)
  obtain k o' where p: "p = (k, o')" by (cases p)
  show ?case
  proof (cases "map_of nd k = None")
    case True
    show ?thesis
    proof (cases "removed_entry o' (clock tick)")
      case (Inl err)
      with removed_entry_clock [of o' "clock tick" "clock' tick'"]
      have "removed_entry o' (clock' tick') = Inl err"
        by (cases "removed_entry o' (clock' tick')") simp_all
      with Inl show ?thesis by (simp add: p detect_removed_Cons True del: detect_removed.simps)
    next
      case (Inr e)
      with removed_entry_clock [of o' "clock tick" "clock' tick'"]
      obtain e' where e': "removed_entry o' (clock' tick') = Inr e'"
        "without_check_time e = without_check_time e'"
        by (cases "removed_entry o' (clock' tick')") simp_all
      show ?thesis
        using Cons.IH [of "Suc tick" "Suc tick'"]
        by (cases "detect_removed clock nd items (Suc tick) []";
            cases "detect_removed clock' nd items (Suc tick') []")
           (simp_all add: p detect_removed_Cons True Inr e' del: detect_removed.simps)
    qed
  next
    case False
    show ?thesis
      using Cons.IH [of tick tick']
      by (simp add: p detect_removed_Cons False del: detect_removed.simps)
  qed
qed

lemma compare_metadata_clock:
  "map_sum id (map without_check_time) (compare_metadata clock old_data new_data) =
   map_sum id (map without_check_time) (compare_metadata clock' old_data new_data)"
proof (cases "build_lookup old_data []")
  case (Inl e)
  then show ?thesis by (simp add: compare_metadata_def)
next
  case od: (Inr od)
  show ?thesis
  proof (cases "build_lookup new_data []")
    case (Inl e)
    then show ?thesis by (simp add: compare_metadata_def od)
  next
    case nd: (Inr nd)
    show ?thesis
    proof (cases "detect_changes od nd []")
      case (Inl e)
      then show ?thesis by (simp add: compare_metadata_def od nd)
    next
      case (Inr changes)
      show ?thesis
        using detect_removed_clock [of clock nd od 0 clock' 0]
        by (cases "detect_removed clock nd od 0 []"; cases "detect_removed clock' nd od 0 []")
           (simp_all add: compare_metadata_def od nd Inr
              detect_removed_acc [of _ nd od 0 changes])
    qed
  qed
qed

lemmas record_defs = pypi_record_def github_record_def

lemmas example_defs = numpy_1_0_def numpy_1_1_def pandas_2_0_def linux_2023_def
  linux_2023_starred_def numpy_unversioned_def cpython_undated_def empty_version_def
  numpy_keyless_def scenario_previous_def scenario_current_def unversioned_snapshot_def

lemmas entry_defs = compare_metadata_def added_entry_def changed_entry_def field_differs_def
  updated_entry_def removed_entry_def getitem_def get_def py_or_def

subsection \<open>Snapshots without duplicates\<close>

lemma build_lookup_snapshot:
  assumes "well_formed_snapshot S"
  shows "build_lookup S [] = Inr (map (\<lambda>r. (entry_key r, r)) S)"
proof -
  from assms have "list_all keyed S" "distinct (map fst ([] :: lookup) @ map entry_key S)"
    by (auto simp: well_formed_snapshot_def list_all_iff well_formed_keyed)
  from build_lookup_distinct_keys [OF this] show ?thesis by simp
qed

lemma detect_changes_added:
  assumes "list_all well_formed S"
  shows "\<exists>es. detect_changes [] (map (\<lambda>r. (entry_key r, r)) S) [] = Inr es \<and>
           map (\<lambda>e. (entry_key e, get e (u ''change_type''))) es =
           map (\<lambda>r. (entry_key r, PStr ct_added)) S"
  using assms
proof (induction S)
  case Nil
  then show ?case by simp
next
  case (Cons r S)
  from Cons.prems have r: "well_formed r" and S: "list_all well_formed S" by simp_all
  from added_entry_total [OF r] obtain e where e: "added_entry r = Inr e" ..
  from Cons.IH [OF S] obtain es where
    es: "detect_changes [] (map (\<lambda>r. (entry_key r, r)) S) [] = Inr es"
      "map (\<lambda>e. (entry_key e, get e (u ''change_type''))) es =
       map (\<lambda>r. (entry_key r, PStr ct_added)) S" by blast
  have "detect_changes [] (map (\<lambda>r. (entry_key r, r)) (r # S)) [] = Inr (e # es)"
    by (simp add: detect_changes_Cons change_step_def e es(1) del: detect_changes.simps)
  with es(2) added_entry_Inr [OF e] show ?case by simp
qed

lemma detect_removed_all:
  assumes "list_all well_formed S"
  shows "\<exists>es. detect_removed clock [] (map (\<lambda>r. (entry_key r, r)) S) tick [] = Inr es \<and>
           map (\<lambda>e. (entry_key e, get e (u ''change_type''), get e (u ''old_value''),
                      get e (u ''new_value''))) es =
           map (\<lambda>r. (entry_key r, PStr ct_removed,
                      py_or (get r (u ''version'')) (get r (u ''last_updated'')), PNone)) S"
  using assms
proof (induction S arbitrary: tick)
  case Nil
  then show ?case by simp
next
  case (Cons r S)
  from Cons.prems have r: "well_formed r" and S: "list_all well_formed S" by simp_all
  from removed_entry_total [OF r] obtain e where e: "removed_entry r (clock tick) = Inr e" ..
  from Cons.IH [OF S, of "Suc tick"] obtain es where
    es: "detect_removed clock [] (map (\<lambda>r. (entry_key r, r)) S) (Suc tick) [] = Inr es"
      "map (\<lambda>e. (entry_key e, get e (u ''change_type''), get e (u ''old_value''),
                      get e (u ''new_value''))) es =
           map (\<lambda>r. (entry_key r, PStr ct_removed,
                      py_or (get r (u ''version'')) (get r (u ''last_updated'')), PNone)) S"
    by blast
  have full: "detect_removed clock [] (map (\<lambda>r. (entry_key r, r)) (r # S)) tick [] = Inr (e # es)"
    by (simp add: detect_removed_Cons e es(1) del: detect_removed.simps)
  from e have vals: "get e (u ''old_value'') = py_or (get r (u ''version'')) (get r (u ''last_updated''))"
    "get e (u ''new_value'') = PNone"
    by (auto simp: removed_entry_def and_then_eq_Inr get_def)
  from full es(2) removed_entry_Inr [OF e] vals show ?case by simp
qed

lemma py_or_comparison_field:
  assumes "well_formed r" and "comparison_field r \<noteq> PStr []"
  shows "py_or (get r (u ''version'')) (get r (u ''last_updated'')) = comparison_field r"
  using assms(1)
proof (cases rule: well_formed_cases)
  case (pypi n t v)
  with assms(2) show ?thesis
    by (auto simp: comparison_field_def py_or_def get_Some get_None)
next
  case (github n t v)
  then show ?thesis
    by (auto simp: comparison_field_def py_or_def get_Some get_None)
qed

lemma compare_metadata_all_removed:
  assumes "well_formed_snapshot S"
  shows "\<exists>entries. compare_metadata clock S [] = Inr entries \<and>
           map (\<lambda>e. (entry_key e, get e (u ''change_type''), get e (u ''old_value''),
                      get e (u ''new_value''))) entries =
           map (\<lambda>r. (entry_key r, PStr ct_removed,
                      py_or (get r (u ''version'')) (get r (u ''last_updated'')), PNone)) S"
proof -
  from assms have wf: "list_all well_formed S" by (simp add: well_formed_snapshot_def)
  from detect_removed_all [OF wf, of clock 0] obtain es where
    es: "detect_removed clock [] (map (\<lambda>r. (entry_key r, r)) S) 0 [] = Inr es"
      "map (\<lambda>e. (entry_key e, get e (u ''change_type''), get e (u ''old_value''),
                      get e (u ''new_value''))) es =
           map (\<lambda>r. (entry_key r, PStr ct_removed,
                      py_or (get r (u ''version'')) (get r (u ''last_updated'')), PNone)) S"
    by blast
  have "compare_metadata clock S [] = Inr es"
    by (simp add: compare_metadata_def build_lookup_snapshot [OF assms] es(1))
  with es(2) show ?thesis by blast
qed

subsection \<open>The entries of one key\<close>

lemma changed_entry_well_formed:
  assumes "well_formed o'" and "well_formed n" and "entry_key o' = entry_key n"
  shows "changed_entry o' n =
     Inr (if comparison_field o' = comparison_field n then None
          else Some [(u ''source'', get n (u ''source'')),
                     (u ''name'', get n (u ''name'')),
                     (u ''change_type'',
                        PStr (if get n (u ''source'') = PStr (u ''pypi'')
                              then ct_version_update else ct_repo_update)),
                     (u ''old_value'', comparison_field o'),
                     (u ''new_value'', comparison_field n),
                     (u ''check_time'', get n (u ''checked_at''))])"
proof -
  from assms(3) have src: "get o' (u ''source'') = get n (u ''source'')"
    by (simp add: entry_key_def)
  from assms(2) show ?thesis
  proof (cases rule: well_formed_cases)
    case (pypi nm t v)
    from assms(1) obtain ov where ov: "map_of o' (u ''version'') = Some ov"
      using src pypi(1)
      by (cases rule: well_formed_cases) (auto simp: get_Some)
    from src pypi(1) have so: "get o' (u ''source'') = PStr (u ''pypi'')"
      by (simp add: get_Some)
    show ?thesis
      by (simp add: changed_entry_def field_differs_same [OF pypi(1) ov pypi(4)]
          field_differs_other [OF pypi(1)] updated_entry_Inr [OF pypi(2) ov pypi(4) pypi(3)]
          comparison_field_def so get_Some [OF pypi(1)] get_Some [OF pypi(2)]
          get_Some [OF pypi(3)] get_Some [OF pypi(4)] get_Some [OF ov])
  next
    case (github nm t v)
    from assms(1) obtain ov where ov: "map_of o' (u ''last_updated'') = Some ov"
      using src github(1)
      by (cases rule: well_formed_cases) (auto simp: get_Some)
    from src github(1) have so: "get o' (u ''source'') = PStr (u ''github'')"
      by (simp add: get_Some)
    show ?thesis
      by (simp add: changed_entry_def field_differs_same [OF github(1) ov github(4)]
          field_differs_other [OF github(1)] updated_entry_Inr [OF github(2) ov github(4) github(3)]
          comparison_field_def so get_Some [OF github(1)] get_Some [OF github(2)]
          get_Some [OF github(3)] get_Some [OF github(4)] get_Some [OF ov])
  qed
qed

lemma detect_changes_keys:
  assumes "\<forall>(k, n) \<in> set items. entry_key n = k"
    and "detect_changes od items [] = Inr es"
    and "e \<in> set es"
  shows "entry_key e \<in> fst ` set items"
proof -
  from detect_changes_order [OF assms(1,2)]
  have sub: "subseq (map entry_key es) (map fst items)" by simp
  from assms(3) have "entry_key e \<in> set (map entry_key es)" by simp
  with sub obtain y where "y \<in> set (map fst items)" "entry_key e = y"
    by (rule list_emb_set)
  then show ?thesis by simp
qed

lemma filter_all: "(\<And>x. x \<in> set xs \<Longrightarrow> P x) \<Longrightarrow> filter P xs = xs"
  by (induction xs) auto

lemma filter_none: "(\<And>x. x \<in> set xs \<Longrightarrow> \<not> P x) \<Longrightarrow> filter P xs = []"
  by (induction xs) auto

lemma detect_changes_filter:
  assumes "\<forall>(k, n) \<in> set items. entry_key n = k"
    and "distinct (map fst items)"
    and "(k, n) \<in> set items"
    and "detect_changes od items [] = Inr es"
  shows "change_step od (k, n) = Inr (filter (\<lambda>e. entry_key e = k) es)"
  using assms
proof (induction items arbitrary: es)
  case Nil
  then show ?case by simp
next
  case (Cons p items)
  obtain k' n' where p: "p = (k', n')" by (cases p)
  from Cons.prems(4) obtain es1 es2 where
    es: "change_step od (k', n') = Inr es1" "detect_changes od items [] = Inr es2" "es = es1 @ es2"
    unfolding p by (rule detect_changes_Cons_Inr)
  from Cons.prems(1) have kn': "entry_key n' = k'"
    and rest: "\<forall>(k, n) \<in> set items. entry_key n = k"
    by (simp_all add: p)
  from Cons.prems(2) have fresh: "k' \<notin> fst ` set items" and dist: "distinct (map fst items)"
    by (simp_all add: p)
  have keys1: "entry_key e = k'" if "e \<in> set es1" for e
    using change_step_entries(1) [OF es(1) that] kn' by simp
  have keys2: "entry_key e \<in> fst ` set items" if "e \<in> set es2" for e
    using detect_changes_keys [OF rest es(2) that] .
  show ?case
  proof (cases "(k, n) = (k', n')")
    case True
    then have eq: "k = k'" "n = n'" by simp_all
    have "filter (\<lambda>e. entry_key e = k) es1 = es1"
      by (rule filter_all) (simp add: keys1 eq)
    moreover have "filter (\<lambda>e. entry_key e = k) es2 = []"
    proof (rule filter_none)
      fix e assume "e \<in> set es2"
      from keys2 [OF this] fresh show "entry_key e \<noteq> k" by (auto simp: eq)
    qed
    ultimately show ?thesis by (simp add: es eq)
  next
    case False
    with Cons.prems(3) have mem: "(k, n) \<in> set items" by (auto simp: p)
    then have "k \<in> fst ` set items" by (rule fst_in_keys)
    with fresh have neq: "k' \<noteq> k" by auto
    have "filter (\<lambda>e. entry_key e = k) es1 = []"
      by (rule filter_none) (simp add: keys1 neq)
    with Cons.IH [OF rest dist mem es(2)] show ?thesis by (simp add: es(3))
  qed
qed

lemma map_of_snapshot:
  assumes "distinct (map entry_key S)" and "r \<in> set S"
  shows "map_of (map (\<lambda>r. (entry_key r, r)) S) (entry_key r) = Some r"
proof -
  have "distinct (map fst (map (\<lambda>r. (entry_key r, r)) S))"
    using assms(1) by (simp add: comp_def)
  moreover have "(entry_key r, r) \<in> set (map (\<lambda>r. (entry_key r, r)) S)"
    using assms(2) by auto
  ultimately show ?thesis by (rule map_of_is_SomeI)
qed

lemma entries_of_common_key:
  assumes old: "well_formed_snapshot old_data" and new: "well_formed_snapshot new_data"
    and o: "old_item \<in> set old_data" and n: "new_item \<in> set new_data"
    and key: "entry_key old_item = entry_key new_item"
    and run: "compare_metadata clock old_data new_data = Inr updates"
  shows "and_then (changed_entry old_item new_item)
           (\<lambda>r. Inr (case r of None \<Rightarrow> [] | Some e \<Rightarrow> [e])) =
         Inr (filter (\<lambda>e. entry_key e = entry_key new_item) updates)"
proof -
  let ?od = "map (\<lambda>r. (entry_key r, r)) old_data"
  let ?nd = "map (\<lambda>r. (entry_key r, r)) new_data"
  let ?k = "entry_key new_item"
  from old new have dist: "distinct (map entry_key old_data)" "distinct (map entry_key new_data)"
    by (simp_all add: well_formed_snapshot_def)
  from run obtain changes where
    ch: "detect_changes ?od ?nd [] = Inr changes"
    and rm: "detect_removed clock ?nd ?od 0 changes = Inr updates"
    by (auto simp: compare_metadata_def build_lookup_snapshot [OF old]
        build_lookup_snapshot [OF new] and_then_eq_Inr)
  from rm obtain removals where
    rs: "detect_removed clock ?nd ?od 0 [] = Inr removals" "updates = changes @ removals"
    by (subst (asm) detect_removed_acc) (auto simp: and_then_eq_Inr)
  have nk: "\<forall>(k, r) \<in> set ?nd. entry_key r = k" by auto
  have ok: "\<forall>(k, r) \<in> set ?od. entry_key r = k" by auto
  have found_new: "map_of ?nd ?k = Some new_item"
    by (rule map_of_snapshot [OF dist(2) n])
  have found_old: "map_of ?od ?k = Some old_item"
    using map_of_snapshot [OF dist(1) o] key by simp
  from detect_removed_order [OF ok rs(1)]
  have "map entry_key removals = filter (\<lambda>k. map_of ?nd k = None) (map fst ?od)" by simp
  then have "set (map entry_key removals) =
      set (filter (\<lambda>k. map_of ?nd k = None) (map fst ?od))" by (rule arg_cong)
  with found_new have "?k \<notin> set (map entry_key removals)"
    by (simp del: set_map map_map)
  then have none: "filter (\<lambda>e. entry_key e = ?k) removals = []"
    by (intro filter_none) (metis image_eqI set_map)
  have dn: "distinct (map fst ?nd)" using dist(2) by (simp add: comp_def)
  have mem: "(?k, new_item) \<in> set ?nd" using n by auto
  from detect_changes_filter [OF nk dn mem ch]
  have "change_step ?od (?k, new_item) = Inr (filter (\<lambda>e. entry_key e = ?k) changes)" .
  then show ?thesis
    by (simp add: change_step_def found_old rs(2) none)
qed

lemma compare_metadata_total:
  assumes "list_all well_formed old_data" and "list_all well_formed new_data"
  shows "\<exists>updates. compare_metadata clock old_data new_data = Inr updates"
proof -
  from assms(1) obtain old_dict where
    od: "build_lookup old_data [] = Inr old_dict" "sound_lookup old_dict"
    by (rule build_lookup_well_formed)
  from assms(2) obtain new_dict where
    nd: "build_lookup new_data [] = Inr new_dict" "sound_lookup new_dict"
    by (rule build_lookup_well_formed)
  from detect_changes_total [OF od(2) nd(2)] obtain ups where
    ups: "detect_changes old_dict new_dict [] = Inr ups" by blast
  from detect_removed_total [OF od(2)] obtain ups' where
    "detect_removed clock new_dict old_dict 0 ups = Inr ups'" by blast
  with od(1) nd(1) ups show ?thesis by (simp add: compare_metadata_def)
qed

subsection \<open>Independence from the descriptive fields\<close>

lemma same_core_map_of:
  assumes "same_core r r'" and "k \<notin> set opaque_fields"
  shows "map_of r k = map_of r' k"
proof (cases "k \<in> set (map fst r @ map fst r')")
  case True
  with assms show ?thesis unfolding same_core_def by blast
next
  case False
  then have "map_of r k = None" "map_of r' k = None"
    by (simp_all add: map_of_eq_None_iff)
  then show ?thesis by simp
qed

lemma core_keys_not_opaque [simp]:
  "u ''source'' \<notin> set opaque_fields" "u ''name'' \<notin> set opaque_fields"
  "u ''version'' \<notin> set opaque_fields" "u ''last_updated'' \<notin> set opaque_fields"
  "u ''checked_at'' \<notin> set opaque_fields"
  by (simp_all add: opaque_fields_def)

lemma same_core_getitem:
  "same_core r r' \<Longrightarrow> k \<notin> set opaque_fields \<Longrightarrow> getitem r k = getitem r' k"
  by (simp add: getitem_def same_core_map_of)

lemma same_core_get:
  "same_core r r' \<Longrightarrow> k \<notin> set opaque_fields \<Longrightarrow> get r k = get r' k"
  by (simp add: get_def same_core_map_of)

lemma same_core_added: "same_core r r' \<Longrightarrow> added_entry r = added_entry r'"
  by (simp add: added_entry_def same_core_getitem same_core_get)

lemma same_core_removed: "same_core r r' \<Longrightarrow> removed_entry r t = removed_entry r' t"
  by (simp add: removed_entry_def same_core_getitem same_core_get)

lemma same_core_changed:
  "same_core o1 o2 \<Longrightarrow> same_core n1 n2 \<Longrightarrow> changed_entry o1 n1 = changed_entry o2 n2"
  by (simp add: changed_entry_def field_differs_def updated_entry_def
      same_core_getitem [of o1 o2] same_core_getitem [of n1 n2] cong: if_cong)

lemma same_lookup_Nil [simp]: "same_lookup [] []"
  by (simp add: same_lookup_def)

lemma same_lookup_Cons:
  "same_lookup (p # d) d2 \<longleftrightarrow>
     (\<exists>p' d'. d2 = p' # d' \<and> fst p = fst p' \<and> same_core (snd p) (snd p') \<and> same_lookup d d')"
  by (auto simp: same_lookup_def list_all2_Cons1)

lemma same_lookup_setitem:
  "same_lookup d d' \<Longrightarrow> same_core r r' \<Longrightarrow> same_lookup (setitem d k r) (setitem d' k r')"
proof (induction d arbitrary: d')
  case Nil
  then show ?case by (simp add: same_lookup_def)
next
  case (Cons p d)
  from Cons.prems(1) obtain p' d2 where
    d': "d' = p' # d2" "fst p = fst p'" "same_core (snd p) (snd p')" "same_lookup d d2"
    by (auto simp: same_lookup_Cons)
  obtain a b where p: "p = (a, b)" by (cases p)
  obtain a' b' where p': "p' = (a', b')" by (cases p')
  from d'(2) have aa: "a' = a" by (simp add: p p')
  show ?case
    using Cons.IH [OF d'(4) Cons.prems(2)] d'(3,4) Cons.prems(2)
    by (simp add: d'(1) p p' aa same_lookup_Cons)
qed

lemma same_lookup_map_of:
  "same_lookup d d' \<Longrightarrow> rel_option same_core (map_of d k) (map_of d' k)"
proof (induction d arbitrary: d')
  case Nil
  then show ?case by (simp add: same_lookup_def)
next
  case (Cons p d)
  from Cons.prems(1) obtain p' d2 where
    d': "d' = p' # d2" "fst p = fst p'" "same_core (snd p) (snd p')" "same_lookup d d2"
    by (auto simp: same_lookup_Cons)
  obtain a b where p: "p = (a, b)" by (cases p)
  obtain a' b' where p': "p' = (a', b')" by (cases p')
  from d'(2) have aa: "a' = a" by (simp add: p p')
  show ?case
    using Cons.IH [OF d'(4)] d'(3)
    by (simp add: d'(1) p p' aa)
qed

lemma build_lookup_same:
  "list_all2 same_core data data' \<Longrightarrow> same_lookup d d' \<Longrightarrow>
   rel_sum (=) same_lookup (build_lookup data d) (build_lookup data' d')"
proof (induction data data' arbitrary: d d' rule: list_all2_induct)
  case Nil
  then show ?case by simp
next
  case (Cons r rs r' rs')
  have src: "getitem r' (u ''source'') = getitem r (u ''source'')"
    and nm: "getitem r' (u ''name'') = getitem r (u ''name'')"
    using Cons.hyps(1) by (simp_all add: same_core_getitem)
  show ?case
  proof (cases "getitem r (u ''source'')")
    case (Inl e)
    then show ?thesis by (simp add: src)
  next
    case s: (Inr s)
    show ?thesis
    proof (cases "getitem r (u ''name'')")
      case (Inl e)
      then show ?thesis by (simp add: src nm s)
    next
      case (Inr n)
      from Cons.IH [OF same_lookup_setitem [OF Cons.prems Cons.hyps(1)], of "(s, n)"]
      show ?thesis by (simp add: src nm s Inr)
    qed
  qed
qed

lemma detect_changes_same:
  "same_lookup od od' \<Longrightarrow> same_lookup items items' \<Longrightarrow>
   detect_changes od' items' acc = detect_changes od items acc"
proof (induction items arbitrary: items' acc)
  case Nil
  then show ?case by (simp add: same_lookup_def)
next
  case (Cons p items)
  from Cons.prems(2) obtain p' items2 where
    i': "items' = p' # items2" "fst p = fst p'" "same_core (snd p) (snd p')"
      "same_lookup items items2"
    by (auto simp: same_lookup_Cons)
  obtain k n where p: "p = (k, n)" by (cases p)
  obtain k' n' where p': "p' = (k', n')" by (cases p')
  from i'(2,3) have kk: "k' = k" and nn: "same_core n n'" by (simp_all add: p p')
  note ih = Cons.IH [OF Cons.prems(1) i'(4)]
  from same_lookup_map_of [OF Cons.prems(1), of k] show ?case
  proof (cases rule: option.rel_cases)
    case None
    then show ?thesis
      by (simp add: i'(1) p p' kk ih same_core_added [OF nn])
  next
    case (Some o1 o2)
    then show ?thesis
      by (simp add: i'(1) p p' kk ih same_core_changed [OF Some(3) nn])
  qed
qed

lemma detect_removed_same:
  "same_lookup nd nd' \<Longrightarrow> same_lookup items items' \<Longrightarrow>
   detect_removed clock nd' items' tick acc = detect_removed clock nd items tick acc"
proof (induction items arbitrary: items' tick acc)
  case Nil
  then show ?case by (simp add: same_lookup_def)
next
  case (Cons p items)
  from Cons.prems(2) obtain p' items2 where
    i': "items' = p' # items2" "fst p = fst p'" "same_core (snd p) (snd p')"
      "same_lookup items items2"
    by (auto simp: same_lookup_Cons)
  obtain k o1 where p: "p = (k, o1)" by (cases p)
  obtain k' o2 where p': "p' = (k', o2)" by (cases p')
  from i'(2,3) have kk: "k' = k" and oo: "same_core o1 o2" by (simp_all add: p p')
  note ih = Cons.IH [OF Cons.prems(1) i'(4)]
  have none: "map_of nd' k = None \<longleftrightarrow> map_of nd k = None"
    using same_lookup_map_of [OF Cons.prems(1), of k]
    by (cases rule: option.rel_cases) simp_all
  show ?case
    by (simp add: i'(1) p p' kk ih none same_core_removed [OF oo])
qed

lemma rel_sum_eq_cases:
  assumes "rel_sum (=) R x y"
  obtains (Inl) e where "x = Inl e" "y = Inl e"
  | (Inr) a b where "x = Inr a" "y = Inr b" "R a b"
  using assms by (cases x; cases y) simp_all

lemma compare_metadata_same_core:
  assumes "list_all2 same_core old_data old_data'" and "list_all2 same_core new_data new_data'"
  shows "compare_metadata clock old_data' new_data' = compare_metadata clock old_data new_data"
proof -
  from build_lookup_same [OF assms(1) same_lookup_Nil]
  have old: "rel_sum (=) same_lookup (build_lookup old_data []) (build_lookup old_data' [])" .
  from build_lookup_same [OF assms(2) same_lookup_Nil]
  have new: "rel_sum (=) same_lookup (build_lookup new_data []) (build_lookup new_data' [])" .
  from old show ?thesis
  proof (cases rule: rel_sum_eq_cases)
    case (Inl e)
    then show ?thesis by (simp add: compare_metadata_def)
  next
    case od: (Inr od od')
    from new show ?thesis
    proof (cases rule: rel_sum_eq_cases)
      case (Inl e)
      then show ?thesis by (simp add: compare_metadata_def od)
    next
      case nd: (Inr nd nd')
      have ch: "detect_changes od' nd' [] = detect_changes od nd []"
        by (rule detect_changes_same [OF od(3) nd(3)])
      have rm: "detect_removed clock nd' od' 0 = detect_removed clock nd od 0"
        by (rule ext) (rule detect_removed_same [OF nd(3) od(3)])
      show ?thesis
        by (simp add: compare_metadata_def od nd ch rm)
    qed
  qed
qed

subsection \<open>Further facts\<close>

text \<open>
  The well-formedness of the records matters: \<open>old_item["version"]\<close> raises when a PyPI
  record of the previous data lacks the key itself.
\<close>

lemma compare_metadata_missing_key:
  "compare_metadata clock [numpy_keyless] [numpy_1_1] = Inl (KeyError (u ''version''))"
  by (simp add: example_defs record_defs entry_defs)

lemma well_formed_snapshot_total:
  assumes "well_formed_snapshot old_data" and "well_formed_snapshot new_data"
  shows "\<exists>updates. compare_metadata clock old_data new_data = Inr updates"
  using assms by (intro compare_metadata_total) (simp_all add: well_formed_snapshot_def)

lemma example_snapshots_well_formed:
  "well_formed_snapshot unversioned_snapshot" "well_formed_snapshot scenario_current"
  "well_formed_snapshot [linux_2023]" "well_formed_snapshot [linux_2023_starred]"
  "well_formed_snapshot [empty_version]"
  by (simp_all add: well_formed_snapshot_def example_defs well_formed_def record_defs
      entry_key_def get_def)

text \<open>
  The value that an added or a removed entry reports is the comparison field of the
  record, unless that field is the empty string.
\<close>

lemma added_entry_new_value:
  assumes "well_formed r" and "comparison_field r \<noteq> PStr []" and "added_entry r = Inr e"
  shows "get e (u ''new_value'') = comparison_field r"
proof -
  from assms(3) have "get e (u ''new_value'') =
      py_or (get r (u ''version'')) (get r (u ''last_updated''))"
    by (auto simp: added_entry_def and_then_eq_Inr get_def)
  with py_or_comparison_field [OF assms(1,2)] show ?thesis by simp
qed

lemma removed_entry_old_value:
  assumes "well_formed r" and "comparison_field r \<noteq> PStr []" and "removed_entry r t = Inr e"
  shows "get e (u ''old_value'') = comparison_field r"
proof -
  from assms(3) have "get e (u ''old_value'') =
      py_or (get r (u ''version'')) (get r (u ''last_updated''))"
    by (auto simp: removed_entry_def and_then_eq_Inr get_def)
  with py_or_comparison_field [OF assms(1,2)] show ?thesis by simp
qed

subsection \<open>The text that \<open>json.dump\<close> writes\<close>

lemma newline_indent_simps:
  "newline_indent 0 = [10]" "newline_indent (Suc 0) = [10, 32, 32]"
  "newline_indent (Suc (Suc 0)) = [10, 32, 32, 32, 32]"
  by code_simp+

lemmas json_defs = json_dumps_def json_dict_def json_member_def newline_indent_simps
  encode_basestring_def encode_char_def escape_dct_def u_escape_def hex4_def hex_digit_def
  int_repr_def

lemma json_dumps_ascii_example:
  "json_dumps True accented_author =
     [91, 10, 32, 32, 123, 10, 32, 32, 32, 32, 34, 115, 111, 117, 114, 99, 101, 34, 58, 32, 34,
      112, 121, 112, 105, 34, 44, 10, 32, 32, 32, 32, 34, 110, 97, 109, 101, 34, 58, 32, 34,
      120, 34, 44, 10, 32, 32, 32, 32, 34, 118, 101, 114, 115, 105, 111, 110, 34, 58, 32, 34,
      49, 46, 48, 34, 44, 10, 32, 32, 32, 32, 34, 97, 117, 116, 104, 111, 114, 34, 58, 32, 34,
      74, 111, 115, 92, 117, 48, 48, 101, 57, 34, 44, 10, 32, 32, 32, 32, 34, 104, 111, 109,
      101, 95, 112, 97, 103, 101, 34, 58, 32, 110, 117, 108, 108, 10, 32, 32, 125, 10, 93]"
  by (simp add: accented_author_def json_defs u_def)

lemma json_dumps_literal_example:
  "json_dumps False accented_author =
     [91, 10, 32, 32, 123, 10, 32, 32, 32, 32, 34, 115, 111, 117, 114, 99, 101, 34, 58, 32, 34,
      112, 121, 112, 105, 34, 44, 10, 32, 32, 32, 32, 34, 110, 97, 109, 101, 34, 58, 32, 34,
      120, 34, 44, 10, 32, 32, 32, 32, 34, 118, 101, 114, 115, 105, 111, 110, 34, 58, 32, 34,
      49, 46, 48, 34, 44, 10, 32, 32, 32, 32, 34, 97, 117, 116, 104, 111, 114, 34, 58, 32, 34,
      74, 111, 115, 233, 34, 44, 10, 32, 32, 32, 32, 34, 104, 111, 109,
      101, 95, 112, 97, 103, 101, 34, 58, 32, 110, 117, 108, 108, 10, 32, 32, 125, 10, 93]"
  by (simp add: accented_author_def json_defs u_def)

lemma json_dumps_corner_cases:
  "json_dumps True [[(u ''a'', PStr [127, 1, 10, 34, 92, 128512]), (u ''b'', PInt (- 120)),
                     (u ''c'', PInt 0)]] =
     u ''['' @ [10] @ u ''  {'' @ [10] @
     u ''    '' @ [34] @ u ''a'' @ [34] @ u '': '' @ [34, 92] @ u ''u007f'' @ [92] @ u ''u0001'' @
       [92] @ u ''n'' @ [92, 34, 92, 92, 92] @ u ''ud83d'' @ [92] @ u ''ude00'' @ [34] @ u '','' @ [10] @
     u ''    '' @ [34] @ u ''b'' @ [34] @ u '': -120,'' @ [10] @
     u ''    '' @ [34] @ u ''c'' @ [34] @ u '': 0'' @ [10] @ u ''  }'' @ [10] @ u '']''"
  "json_dumps b [] = u ''[]''"
  "json_dumps b [[]] = u ''['' @ [10] @ u ''  {}'' @ [10] @ u '']''"
  by (simp_all add: json_defs u_def digits.simps)

subsection \<open>What the two encoders do to a character outside ASCII\<close>

lemma hex_digit_ascii: "d < 16 \<Longrightarrow> hex_digit d \<le> 126"
  by (simp add: hex_digit_def)

lemma u_escape_ascii: "c \<in> set (u_escape n) \<Longrightarrow> c \<le> 126"
  by (auto simp: u_escape_def hex4_def intro!: hex_digit_ascii)

lemma escape_dct_ascii: "escape_dct c = Some s \<Longrightarrow> x \<in> set s \<Longrightarrow> x \<le> 126"
  by (auto simp: escape_dct_def split: if_splits dest: u_escape_ascii)

lemma escape_dct_None: "126 < c \<Longrightarrow> escape_dct c = None"
  by (simp add: escape_dct_def)

lemma encode_char_ascii: "x \<in> set (encode_char True c) \<Longrightarrow> x \<le> 126"
  by (auto simp: encode_char_def split: option.splits if_splits
      dest: escape_dct_ascii u_escape_ascii)

lemma encode_char_literal: "126 < c \<Longrightarrow> encode_char False c = [c]"
  by (simp add: encode_char_def escape_dct_None)

lemma encode_basestring_ascii: "x \<in> set (encode_basestring True s) \<Longrightarrow> x \<le> 126"
  by (auto simp: encode_basestring_def dest: encode_char_ascii)

lemma encode_basestring_literal:
  "c \<in> set s \<Longrightarrow> 126 < c \<Longrightarrow> c \<in> set (encode_basestring False s)"
  by (auto simp: encode_basestring_def intro!: bexI [of _ c] simp: encode_char_literal)

lemma digits_ascii: "x \<in> set (digits n) \<Longrightarrow> x \<le> 126"
proof (induction n rule: digits.induct)
  case (1 n)
  show ?case
  proof (cases "n < 10")
    case True
    with "1.prems" show ?thesis by (simp add: digits.simps [of n])
  next
    case False
    with "1.prems" have "x \<in> set (digits (n div 10)) \<or> x = 48 + n mod 10"
      by (auto simp: digits.simps [of n])
    then show ?thesis
    proof
      assume "x \<in> set (digits (n div 10))"
      with "1.IH" False show ?thesis by simp
    next
      assume "x = 48 + n mod 10"
      moreover have "n mod 10 < 10" by simp
      ultimately show ?thesis by linarith
    qed
  qed
qed

lemma json_value_ascii: "x \<in> set (json_value True v) \<Longrightarrow> x \<le> 126"
proof (cases v)
  case PNone
  assume "x \<in> set (json_value True v)"
  with PNone show ?thesis by (auto simp: u_def)
next
  case (PStr s)
  assume "x \<in> set (json_value True v)"
  with PStr show ?thesis by (simp add: encode_basestring_ascii)
next
  case (PInt i)
  assume "x \<in> set (json_value True v)"
  with PInt show ?thesis by (auto simp: int_repr_def dest: digits_ascii split: if_splits)
qed

lemma set_str_join: "set (str_join sep xs) \<subseteq> set sep \<union> \<Union> (set ` set xs)"
  by (induction sep xs rule: str_join.induct) auto

lemma str_join_member: "x \<in> set xs \<Longrightarrow> set x \<subseteq> set (str_join sep xs)"
  by (induction sep xs rule: str_join.induct) auto

lemma newline_indent_ascii: "x \<in> set (newline_indent level) \<Longrightarrow> x \<le> 126"
  by (auto simp: newline_indent_def)

lemma json_member_ascii: "x \<in> set (json_member True kv) \<Longrightarrow> x \<le> 126"
  by (auto simp: json_member_def u_def dest: encode_basestring_ascii json_value_ascii)

lemma json_dict_ascii:
  assumes "x \<in> set (json_dict True level d)"
  shows "x \<le> 126"
proof (cases "d = []")
  case True
  with assms show ?thesis by (auto simp: json_dict_def u_def)
next
  case False
  with assms consider "x = 123" | "x = 125" | "x \<in> set (newline_indent (level + 1))"
    | "x \<in> set (newline_indent level)"
    | "x \<in> set (str_join (44 # newline_indent (level + 1)) (map (json_member True) d))"
    by (auto simp: json_dict_def)
  then show ?thesis
  proof cases
    case 5
    with set_str_join [of "44 # newline_indent (level + 1)" "map (json_member True) d"]
    have "x = 44 \<or> x \<in> set (newline_indent (level + 1)) \<or>
      (\<exists>kv \<in> set d. x \<in> set (json_member True kv))" by auto
    then show ?thesis by (auto dest: newline_indent_ascii json_member_ascii)
  qed (auto dest: newline_indent_ascii)
qed

lemma json_dumps_ascii:
  assumes "x \<in> set (json_dumps True data)"
  shows "x \<le> 126"
proof (cases "data = []")
  case True
  with assms show ?thesis by (auto simp: json_dumps_def u_def)
next
  case False
  with assms consider "x = 91" | "x = 93" | "x \<in> set (newline_indent 1)"
    | "x \<in> set (newline_indent 0)"
    | "x \<in> set (str_join (44 # newline_indent 1) (map (json_dict True 1) data))"
    by (auto simp: json_dumps_def)
  then show ?thesis
  proof cases
    case 5
    with set_str_join [of "44 # newline_indent 1" "map (json_dict True 1) data"]
    have "x = 44 \<or> x \<in> set (newline_indent 1) \<or>
      (\<exists>d \<in> set data. x \<in> set (json_dict True 1 d))" by auto
    then show ?thesis by (auto dest: newline_indent_ascii json_dict_ascii)
  qed (auto dest: newline_indent_ascii)
qed

lemma json_dumps_literal:
  assumes "d \<in> set data" and "(k, PStr s) \<in> set d" and "c \<in> set s" and "126 < c"
  shows "c \<in> set (json_dumps False data)"
proof -
  from assms(3,4) have "c \<in> set (json_member False (k, PStr s))"
    by (simp add: json_member_def encode_basestring_literal)
  moreover have "set (json_member False (k, PStr s)) \<subseteq>
      set (str_join (44 # newline_indent (1 + 1)) (map (json_member False) d))"
    using assms(2) by (intro str_join_member) auto
  ultimately have "c \<in> set (json_dict False 1 d)"
    using assms(2) by (auto simp: json_dict_def)
  moreover have "set (json_dict False 1 d) \<subseteq>
      set (str_join (44 # newline_indent 1) (map (json_dict False 1) data))"
    using assms(1) by (intro str_join_member) auto
  ultimately show ?thesis
    using assms(1) by (auto simp: json_dumps_def)
qed

subsection \<open>The frame of \<open>main\<close>\<close>

lemma report_path_distinct:
  "report_path stamp \<noteq> metadata_json" "report_path stamp \<noteq> metadata_csv"
  by (simp_all add: report_path_def metadata_json_def metadata_csv_def path_join_def u_def)

lemma save_to_json_other: "p \<noteq> output_path \<Longrightarrow> save_to_json data output_path fs p = fs p"
  by (simp add: save_to_json_def)

lemma main_no_data:
  assumes "collect_metadata (env_fetch env) targets [] = []"
  shows "fst (main env fs) = fs \<or>
         (\<exists>report. fst (main env fs) = save_to_json report (report_path (env_stamp env)) fs)"
  using assms by (auto simp: main_def Let_def split: sum.splits)

lemma collect_metadata_all_fail:
  "(\<And>t. fetch t = None) \<Longrightarrow> collect_metadata fetch ts current_data = current_data"
  by (induction ts) simp_all

section \<open>Claims\<close>

text \<open>
  C1. For every pair of well-formed snapshots, in which the \<open>version\<close> of a PyPI record and
  the \<open>last_updated\<close> of a GitHub record may be without a value (\<open>None\<close>),
  \<open>compare_metadata\<close> returns normally: none of the lookups \<open>old_item["version"]\<close>,
  \<open>new_item["version"]\<close>, \<open>old_item["last_updated"]\<close>, \<open>new_item["last_updated"]\<close> and
  \<open>new_item["checked_at"]\<close> raises.
\<close>

theorem compare_metadata_never_raises:
  assumes "list_all well_formed old_data" and "list_all well_formed new_data"
  shows "\<exists>updates. compare_metadata clock old_data new_data = Inr updates"
  using assms by (rule compare_metadata_total)

theorem compare_metadata_never_raises_witness:
  "list_all well_formed unversioned_snapshot \<and> list_all well_formed scenario_current \<and>
   (\<exists>updates. compare_metadata fixed_clock unversioned_snapshot scenario_current = Inr updates)"
  using compare_metadata_never_raises [of unversioned_snapshot scenario_current fixed_clock]
  by (simp add: example_defs record_defs well_formed_def)

text \<open>
  C3. For every well-formed snapshot \<open>S\<close>, \<open>compare_metadata(S, S)\<close> returns the empty
  list: diffing a snapshot against itself reports no change.
\<close>

theorem compare_metadata_same:
  assumes "list_all well_formed S"
  shows "compare_metadata clock S S = Inr []"
proof -
  from assms obtain d where
    d: "build_lookup S [] = Inr d" "sound_lookup d" "distinct (map fst d)"
    by (rule build_lookup_well_formed)
  have found: "\<forall>(k, n) \<in> set d. well_formed n \<and> map_of d k = Some n"
    using d(2,3) by (auto simp: sound_lookup_def)
  then have "\<forall>(k, n) \<in> set d. map_of d k \<noteq> None" by auto
  with d(1) detect_changes_unchanged [OF found] detect_removed_unchanged [of d d]
  show ?thesis by (simp add: compare_metadata_def)
qed

theorem compare_metadata_same_witness:
  "list_all well_formed scenario_previous \<and>
   compare_metadata fixed_clock scenario_previous scenario_previous = Inr []"
  using compare_metadata_same [of scenario_previous fixed_clock]
  by (simp add: example_defs record_defs well_formed_def)

text \<open>
  C2. For the scenario of the specification (previous: numpy 1.0 from PyPI and
  torvalds/linux from GitHub, last updated 2023-01-01; current: numpy 1.1 and pandas 2.0
  from PyPI) \<open>compare_metadata\<close> returns exactly three entries in this order: the version
  update of numpy from 1.0 to 1.1, the addition of pandas with new value 2.0, and the
  removal of torvalds/linux with old value 2023-01-01. For every pair of inputs the order
  of the output is determined by the inputs: first the additions and updates, in the
  order in which their keys first occur in the current data, then the removals, in the
  order in which their keys first occur in the previous data; and but for the
  \<open>check_time\<close> of the entries the result does not depend on the clock.
\<close>

theorem compare_metadata_scenario_and_order:
  "compare_metadata clock scenario_previous scenario_current =
     Inr [[(u ''source'', PStr (u ''pypi'')), (u ''name'', PStr (u ''numpy'')),
           (u ''change_type'', PStr ct_version_update),
           (u ''old_value'', PStr (u ''1.0'')), (u ''new_value'', PStr (u ''1.1'')),
           (u ''check_time'', PStr (u ''2023-02-01T00:00:00''))],
          [(u ''source'', PStr (u ''pypi'')), (u ''name'', PStr (u ''pandas'')),
           (u ''change_type'', PStr ct_added),
           (u ''old_value'', PNone), (u ''new_value'', PStr (u ''2.0'')),
           (u ''check_time'', PStr (u ''2023-02-01T00:00:01''))],
          [(u ''source'', PStr (u ''github'')), (u ''name'', PStr (u ''torvalds/linux'')),
           (u ''change_type'', PStr ct_removed),
           (u ''old_value'', PStr (u ''2023-01-01'')), (u ''new_value'', PNone),
           (u ''check_time'', PStr (clock 0))]] \<and>
   (compare_metadata clock old_data new_data = Inr updates \<longrightarrow>
      (\<exists>changes removals. updates = changes @ removals \<and>
         subseq (map entry_key changes) (keys_in_order new_data) \<and>
         (\<forall>e \<in> set changes. get e (u ''change_type'') \<noteq> PStr ct_removed) \<and>
         map entry_key removals =
           filter (\<lambda>k. k \<notin> set (keys_in_order new_data)) (keys_in_order old_data) \<and>
         (\<forall>e \<in> set removals. get e (u ''change_type'') = PStr ct_removed))) \<and>
   map_sum id (map without_check_time) (compare_metadata clock old_data new_data) =
     map_sum id (map without_check_time) (compare_metadata clock' old_data new_data)"
proof (intro conjI impI)
  show "compare_metadata clock scenario_previous scenario_current =
     Inr [[(u ''source'', PStr (u ''pypi'')), (u ''name'', PStr (u ''numpy'')),
           (u ''change_type'', PStr ct_version_update),
           (u ''old_value'', PStr (u ''1.0'')), (u ''new_value'', PStr (u ''1.1'')),
           (u ''check_time'', PStr (u ''2023-02-01T00:00:00''))],
          [(u ''source'', PStr (u ''pypi'')), (u ''name'', PStr (u ''pandas'')),
           (u ''change_type'', PStr ct_added),
           (u ''old_value'', PNone), (u ''new_value'', PStr (u ''2.0'')),
           (u ''check_time'', PStr (u ''2023-02-01T00:00:01''))],
          [(u ''source'', PStr (u ''github'')), (u ''name'', PStr (u ''torvalds/linux'')),
           (u ''change_type'', PStr ct_removed),
           (u ''old_value'', PStr (u ''2023-01-01'')), (u ''new_value'', PNone),
           (u ''check_time'', PStr (clock 0))]]"
    by (simp add: example_defs record_defs entry_defs)
next
  assume "compare_metadata clock old_data new_data = Inr updates"
  then show "\<exists>changes removals. updates = changes @ removals \<and>
         subseq (map entry_key changes) (keys_in_order new_data) \<and>
         (\<forall>e \<in> set changes. get e (u ''change_type'') \<noteq> PStr ct_removed) \<and>
         map entry_key removals =
           filter (\<lambda>k. k \<notin> set (keys_in_order new_data)) (keys_in_order old_data) \<and>
         (\<forall>e \<in> set removals. get e (u ''change_type'') = PStr ct_removed)"
    by (rule compare_metadata_order)
next
  show "map_sum id (map without_check_time) (compare_metadata clock old_data new_data) =
     map_sum id (map without_check_time) (compare_metadata clock' old_data new_data)"
    by (rule compare_metadata_clock)
qed

theorem compare_metadata_scenario_and_order_witness:
  "\<exists>updates. compare_metadata fixed_clock scenario_previous scenario_current = Inr updates \<and>
     (\<exists>changes removals. updates = changes @ removals \<and>
        subseq (map entry_key changes) (keys_in_order scenario_current) \<and>
        (\<forall>e \<in> set changes. get e (u ''change_type'') \<noteq> PStr ct_removed) \<and>
        map entry_key removals =
          filter (\<lambda>k. k \<notin> set (keys_in_order scenario_current))
            (keys_in_order scenario_previous) \<and>
        (\<forall>e \<in> set removals. get e (u ''change_type'') = PStr ct_removed))"
proof -
  obtain updates where
    updates: "compare_metadata fixed_clock scenario_previous scenario_current = Inr updates"
    using compare_metadata_scenario_and_order
      [of fixed_clock scenario_previous scenario_current "[]" fixed_clock, THEN conjunct1]
    by (rule that)
  from compare_metadata_scenario_and_order
    [of fixed_clock scenario_previous scenario_current updates fixed_clock,
      THEN conjunct2, THEN conjunct1] updates
  show ?thesis by blast
qed

text \<open>
  C5. For every well-formed snapshot \<open>S\<close>, \<open>compare_metadata([], S)\<close> returns exactly one
  added entry per record of \<open>S\<close>, and the entries are in the order of the records.
\<close>

theorem compare_metadata_all_added:
  assumes "well_formed_snapshot S"
  shows "\<exists>entries. compare_metadata clock [] S = Inr entries \<and>
           map (\<lambda>e. (entry_key e, get e (u ''change_type''))) entries =
           map (\<lambda>r. (entry_key r, PStr ct_added)) S"
proof -
  from assms have wf: "list_all well_formed S" by (simp add: well_formed_snapshot_def)
  from detect_changes_added [OF wf] obtain es where
    es: "detect_changes [] (map (\<lambda>r. (entry_key r, r)) S) [] = Inr es"
      "map (\<lambda>e. (entry_key e, get e (u ''change_type''))) es =
       map (\<lambda>r. (entry_key r, PStr ct_added)) S" by blast
  have "compare_metadata clock [] S = Inr es"
    by (simp add: compare_metadata_def build_lookup_snapshot [OF assms] es(1))
  with es(2) show ?thesis by blast
qed

theorem compare_metadata_all_added_witness:
  "well_formed_snapshot scenario_current \<and>
   (\<exists>entries. compare_metadata fixed_clock [] scenario_current = Inr entries \<and>
      map (\<lambda>e. (entry_key e, get e (u ''change_type''))) entries =
      map (\<lambda>r. (entry_key r, PStr ct_added)) scenario_current)"
proof -
  have wf: "well_formed_snapshot scenario_current"
    by (simp add: well_formed_snapshot_def example_defs well_formed_def record_defs
        entry_key_def get_def)
  from wf compare_metadata_all_added [OF wf, of fixed_clock] show ?thesis by (rule conjI)
qed

text \<open>
  C7. For a key present in both snapshots, \<open>compare_metadata\<close> reports exactly one update
  entry, carrying the old and the new value of the comparison field (\<open>version\<close> for PyPI,
  \<open>last_updated\<close> for GitHub), when the two values differ, in particular when one of them is
  \<open>None\<close> and the other is not; when the two values are equal, it reports no entry for the
  key.
\<close>

theorem field_update_of_common_key:
  assumes "well_formed_snapshot old_data" and "well_formed_snapshot new_data"
    and "old_item \<in> set old_data" and "new_item \<in> set new_data"
    and "entry_key old_item = entry_key new_item"
  shows "\<exists>updates. compare_metadata clock old_data new_data = Inr updates \<and>
     filter (\<lambda>e. entry_key e = entry_key new_item) updates =
       (if comparison_field old_item = comparison_field new_item then []
        else [[(u ''source'', get new_item (u ''source'')),
               (u ''name'', get new_item (u ''name'')),
               (u ''change_type'',
                  PStr (if get new_item (u ''source'') = PStr (u ''pypi'')
                        then ct_version_update else ct_repo_update)),
               (u ''old_value'', comparison_field old_item),
               (u ''new_value'', comparison_field new_item),
               (u ''check_time'', get new_item (u ''checked_at''))]])"
proof -
  from well_formed_snapshot_total [OF assms(1,2)] obtain updates where
    run: "compare_metadata clock old_data new_data = Inr updates" ..
  from assms have wf: "well_formed old_item" "well_formed new_item"
    by (auto simp: well_formed_snapshot_def list_all_iff)
  from entries_of_common_key [OF assms run]
  have "filter (\<lambda>e. entry_key e = entry_key new_item) updates =
       (if comparison_field old_item = comparison_field new_item then []
        else [[(u ''source'', get new_item (u ''source'')),
               (u ''name'', get new_item (u ''name'')),
               (u ''change_type'',
                  PStr (if get new_item (u ''source'') = PStr (u ''pypi'')
                        then ct_version_update else ct_repo_update)),
               (u ''old_value'', comparison_field old_item),
               (u ''new_value'', comparison_field new_item),
               (u ''check_time'', get new_item (u ''checked_at''))]])"
    unfolding changed_entry_well_formed [OF wf assms(5)]
    by (simp split: if_splits)
  with run show ?thesis by blast
qed

theorem field_update_of_common_key_witness:
  "well_formed_snapshot unversioned_snapshot \<and> well_formed_snapshot scenario_current \<and>
   numpy_unversioned \<in> set unversioned_snapshot \<and> numpy_1_1 \<in> set scenario_current \<and>
   entry_key numpy_unversioned = entry_key numpy_1_1 \<and>
   comparison_field numpy_unversioned = PNone \<and>
   comparison_field numpy_1_1 = PStr (u ''1.1'') \<and>
   (\<exists>updates. compare_metadata fixed_clock unversioned_snapshot scenario_current = Inr updates \<and>
      filter (\<lambda>e. entry_key e = (PStr (u ''pypi''), PStr (u ''numpy''))) updates =
        [[(u ''source'', PStr (u ''pypi'')), (u ''name'', PStr (u ''numpy'')),
          (u ''change_type'', PStr ct_version_update),
          (u ''old_value'', PNone), (u ''new_value'', PStr (u ''1.1'')),
          (u ''check_time'', PStr (u ''2023-02-01T00:00:00''))]])"
proof -
  have mem: "numpy_unversioned \<in> set unversioned_snapshot" "numpy_1_1 \<in> set scenario_current"
    by (simp_all add: unversioned_snapshot_def scenario_current_def)
  have vals: "entry_key numpy_1_1 = (PStr (u ''pypi''), PStr (u ''numpy''))"
    "entry_key numpy_unversioned = (PStr (u ''pypi''), PStr (u ''numpy''))"
    "comparison_field numpy_unversioned = PNone"
    "comparison_field numpy_1_1 = PStr (u ''1.1'')"
    "get numpy_1_1 (u ''source'') = PStr (u ''pypi'')"
    "get numpy_1_1 (u ''name'') = PStr (u ''numpy'')"
    "get numpy_1_1 (u ''checked_at'') = PStr (u ''2023-02-01T00:00:00'')"
    by (simp_all add: numpy_1_1_def numpy_unversioned_def record_defs entry_key_def
        comparison_field_def get_def)
  have key: "entry_key numpy_unversioned = entry_key numpy_1_1"
    by (simp add: vals)
  from field_update_of_common_key
    [OF example_snapshots_well_formed(1,2) mem key, of fixed_clock]
  show ?thesis
    by (simp add: example_snapshots_well_formed(1,2) mem vals)
qed

text \<open>
  C8. When both snapshots contain a GitHub record of the same key with the same
  \<open>last_updated\<close>, no entry is reported for that key, whatever the other fields hold; and
  the whole result is independent of \<open>author\<close>, \<open>home_page\<close>, \<open>stars\<close>, \<open>forks\<close> and
  \<open>license\<close>: two runs on snapshots that differ only in those fields return the same.
\<close>

theorem opaque_fields_ignored:
  "(well_formed_snapshot old_data \<and> well_formed_snapshot new_data \<and>
    old_item \<in> set old_data \<and> new_item \<in> set new_data \<and>
    entry_key old_item = entry_key new_item \<and>
    get new_item (u ''source'') = PStr (u ''github'') \<and>
    get old_item (u ''last_updated'') = get new_item (u ''last_updated'') \<longrightarrow>
    (\<exists>updates. compare_metadata clock old_data new_data = Inr updates \<and>
       filter (\<lambda>e. entry_key e = entry_key new_item) updates = [])) \<and>
   (list_all2 same_core old_data old_data' \<and> list_all2 same_core new_data new_data' \<longrightarrow>
    compare_metadata clock old_data' new_data' = compare_metadata clock old_data new_data)"
proof (intro conjI impI)
  assume a: "well_formed_snapshot old_data \<and> well_formed_snapshot new_data \<and>
    old_item \<in> set old_data \<and> new_item \<in> set new_data \<and>
    entry_key old_item = entry_key new_item \<and>
    get new_item (u ''source'') = PStr (u ''github'') \<and>
    get old_item (u ''last_updated'') = get new_item (u ''last_updated'')"
  then have snap: "well_formed_snapshot old_data" "well_formed_snapshot new_data"
    and mem: "old_item \<in> set old_data" "new_item \<in> set new_data"
    and key: "entry_key old_item = entry_key new_item"
    and src: "get new_item (u ''source'') = PStr (u ''github'')"
    and same: "get old_item (u ''last_updated'') = get new_item (u ''last_updated'')"
    by simp_all
  from well_formed_snapshot_total [OF snap] obtain updates where
    run: "compare_metadata clock old_data new_data = Inr updates" ..
  from snap mem have wf: "well_formed old_item" "well_formed new_item"
    by (auto simp: well_formed_snapshot_def list_all_iff)
  from key src have "get old_item (u ''source'') = PStr (u ''github'')"
    by (simp add: entry_key_def)
  with src same have "comparison_field old_item = comparison_field new_item"
    by (simp add: comparison_field_def)
  with entries_of_common_key [OF snap mem key run]
  have "filter (\<lambda>e. entry_key e = entry_key new_item) updates = []"
    unfolding changed_entry_well_formed [OF wf key] by simp
  with run show "\<exists>updates. compare_metadata clock old_data new_data = Inr updates \<and>
       filter (\<lambda>e. entry_key e = entry_key new_item) updates = []" by blast
next
  assume "list_all2 same_core old_data old_data' \<and> list_all2 same_core new_data new_data'"
  then show "compare_metadata clock old_data' new_data' = compare_metadata clock old_data new_data"
    by (intro compare_metadata_same_core) simp_all
qed

theorem opaque_fields_ignored_witness:
  "well_formed_snapshot [linux_2023] \<and> well_formed_snapshot [linux_2023_starred] \<and>
   get linux_2023 (u ''stars'') \<noteq> get linux_2023_starred (u ''stars'') \<and>
   get linux_2023 (u ''last_updated'') = get linux_2023_starred (u ''last_updated'') \<and>
   (\<exists>updates. compare_metadata fixed_clock [linux_2023] [linux_2023_starred] = Inr updates \<and>
      filter (\<lambda>e. entry_key e = entry_key linux_2023_starred) updates = []) \<and>
   list_all2 same_core [linux_2023] [linux_2023_starred] \<and>
   list_all2 same_core scenario_current scenario_current \<and>
   compare_metadata fixed_clock [linux_2023_starred] scenario_current =
     compare_metadata fixed_clock [linux_2023] scenario_current"
proof -
  have vals: "get linux_2023 (u ''stars'') \<noteq> get linux_2023_starred (u ''stars'')"
    "get linux_2023 (u ''last_updated'') = get linux_2023_starred (u ''last_updated'')"
    "get linux_2023_starred (u ''source'') = PStr (u ''github'')"
    "entry_key linux_2023 = entry_key linux_2023_starred"
    by (simp_all add: linux_2023_def linux_2023_starred_def record_defs get_def entry_key_def)
  have core: "list_all2 same_core [linux_2023] [linux_2023_starred]"
    "list_all2 same_core scenario_current scenario_current"
    by (simp_all add: same_core_def opaque_fields_def example_defs record_defs)
  have a: "\<exists>updates. compare_metadata fixed_clock [linux_2023] [linux_2023_starred] = Inr updates \<and>
      filter (\<lambda>e. entry_key e = entry_key linux_2023_starred) updates = []"
    using opaque_fields_ignored
      [of "[linux_2023]" "[linux_2023_starred]" linux_2023 linux_2023_starred fixed_clock,
        THEN conjunct1]
      example_snapshots_well_formed(3,4) vals
    by simp
  have b: "compare_metadata fixed_clock [linux_2023_starred] scenario_current =
     compare_metadata fixed_clock [linux_2023] scenario_current"
    using opaque_fields_ignored
      [of "[linux_2023]" scenario_current _ _ fixed_clock "[linux_2023_starred]"
        scenario_current, THEN conjunct2]
      core
    by simp
  from example_snapshots_well_formed(3,4) vals(1,2) a core b show ?thesis by simp
qed

text \<open>
  C4. For a key of the current data that is not in the previous data, the added entry's
  new value is chosen by \<open>version or last_updated\<close>, not by the source kind: for a PyPI
  record whose version is the empty string the entry reports \<open>None\<close> instead of the
  version.
\<close>

theorem added_entry_drops_empty_version:
  "well_formed_snapshot [empty_version] \<and>
   get empty_version (u ''source'') = PStr (u ''pypi'') \<and>
   get empty_version (u ''version'') = PStr [] \<and>
   compare_metadata clock [] [empty_version] =
     Inr [[(u ''source'', PStr (u ''pypi'')), (u ''name'', PStr (u ''pkg'')),
           (u ''change_type'', PStr ct_added),
           (u ''old_value'', PNone), (u ''new_value'', PNone),
           (u ''check_time'', PStr (u ''2023-01-01T00:00:00''))]]"
  by (simp add: example_snapshots_well_formed(5))
     (simp add: empty_version_def record_defs entry_defs)

text \<open>
  C6. \<open>compare_metadata(S, [])\<close> reports one removed entry per record, but its old value
  is chosen by \<open>version or last_updated\<close>: for a PyPI record whose version is the empty
  string the entry reports \<open>None\<close> instead of the comparison field.
\<close>

theorem removed_entry_drops_empty_version:
  "well_formed_snapshot [empty_version] \<and>
   comparison_field empty_version = PStr [] \<and>
   compare_metadata clock [empty_version] [] =
     Inr [[(u ''source'', PStr (u ''pypi'')), (u ''name'', PStr (u ''pkg'')),
           (u ''change_type'', PStr ct_removed),
           (u ''old_value'', PNone), (u ''new_value'', PNone),
           (u ''check_time'', PStr (clock 0))]]"
  by (simp add: example_snapshots_well_formed(5))
     (simp add: empty_version_def record_defs entry_defs comparison_field_def)

text \<open>
  C10. When a cycle collects no record (\<open>current_data\<close> is empty), \<open>main\<close> leaves
  \<open>metadata.json\<close> and \<open>metadata.csv\<close> as they were, so a cycle in which every fetch
  fails does not erase the stored snapshot; and \<open>save_to_csv\<close> returns without touching
  the file system when the list is empty.
\<close>

theorem main_keeps_snapshot_without_data:
  assumes "collect_metadata (env_fetch env) targets [] = []"
  shows "fst (main env fs) metadata_json = fs metadata_json \<and>
         fst (main env fs) metadata_csv = fs metadata_csv \<and>
         save_to_csv csv_row [] output_path fs = fs"
proof -
  from main_no_data [OF assms, of fs]
  have "fst (main env fs) metadata_json = fs metadata_json \<and>
        fst (main env fs) metadata_csv = fs metadata_csv"
    using report_path_distinct [of "env_stamp env"]
    by (auto simp: save_to_json_def)
  then show ?thesis by (simp add: save_to_csv_def)
qed

theorem main_keeps_snapshot_without_data_witness:
  "collect_metadata (env_fetch failing_environment) targets [] = [] \<and>
   fst (main failing_environment stored_snapshot) metadata_json =
     Some (json_dumps False scenario_previous) \<and>
   fst (main failing_environment stored_snapshot) metadata_csv = None \<and>
   save_to_csv (env_csv_row failing_environment) [] metadata_csv stored_snapshot =
     stored_snapshot"
proof -
  have none: "collect_metadata (env_fetch failing_environment) targets [] = []"
    by (simp add: failing_environment_def collect_metadata_all_fail)
  have csv: "stored_snapshot metadata_csv = None"
    by (simp add: stored_snapshot_def metadata_json_def metadata_csv_def path_join_def u_def)
  from main_keeps_snapshot_without_data
    [OF none, of stored_snapshot "env_csv_row failing_environment" metadata_csv]
  show ?thesis by (simp add: none csv) (simp add: stored_snapshot_def)
qed

text \<open>
  C9. \<open>save_to_json\<close> of \<open>Get_Date.py\<close> does not keep a character outside ASCII: for a
  record whose author ends in U+00E9 it writes six characters, a backslash and \<open>u00e9\<close>, where
  \<open>save_to_json\<close> of \<open>test_data.py\<close> writes the character itself. Both texts are the
  pretty-printed array.
\<close>

theorem get_date_save_to_json_escapes:
  "get_date_save_to_json accented_author output_path fs output_path =
     Some
     [91, 10, 32, 32, 123, 10, 32, 32, 32, 32, 34, 115, 111, 117, 114, 99, 101, 34, 58, 32, 34,
      112, 121, 112, 105, 34, 44, 10, 32, 32, 32, 32, 34, 110, 97, 109, 101, 34, 58, 32, 34,
      120, 34, 44, 10, 32, 32, 32, 32, 34, 118, 101, 114, 115, 105, 111, 110, 34, 58, 32, 34,
      49, 46, 48, 34, 44, 10, 32, 32, 32, 32, 34, 97, 117, 116, 104, 111, 114, 34, 58, 32, 34,
      74, 111, 115, 92, 117, 48, 48, 101, 57, 34, 44, 10, 32, 32, 32, 32, 34, 104, 111, 109,
      101, 95, 112, 97, 103, 101, 34, 58, 32, 110, 117, 108, 108, 10, 32, 32, 125, 10, 93] \<and>
   save_to_json accented_author output_path fs output_path =
     Some
     [91, 10, 32, 32, 123, 10, 32, 32, 32, 32, 34, 115, 111, 117, 114, 99, 101, 34, 58, 32, 34,
      112, 121, 112, 105, 34, 44, 10, 32, 32, 32, 32, 34, 110, 97, 109, 101, 34, 58, 32, 34,
      120, 34, 44, 10, 32, 32, 32, 32, 34, 118, 101, 114, 115, 105, 111, 110, 34, 58, 32, 34,
      49, 46, 48, 34, 44, 10, 32, 32, 32, 32, 34, 97, 117, 116, 104, 111, 114, 34, 58, 32, 34,
      74, 111, 115, 233, 34, 44, 10, 32, 32, 32, 32, 34, 104, 111, 109,
      101, 95, 112, 97, 103, 101, 34, 58, 32, 110, 117, 108, 108, 10, 32, 32, 125, 10, 93]"
  by (simp add: get_date_save_to_json_def save_to_json_def json_dumps_ascii_example
      json_dumps_literal_example)

end
